theory Spec2Isabelle
  imports Main
begin

section \<open>JavaScript values\<close>

text \<open>
  The loader of \<^verbatim>\<open>src/lib/loader.js\<close> works on plain JavaScript objects used as
  dictionaries: the component directory, the options of a load call and the table
  \<^verbatim>\<open>loaded\<close> of a session. A value is modelled by \<open>jsval\<close>; an object is the list of
  its own enumerable properties in enumeration order. A callable value is \<open>Fun f\<close>,
  where \<open>f\<close> names the function: one supplied by the caller (\<open>UserFun\<close>), a built-in
  method that every object inherits (\<open>NativeFun\<close>), or the closure the loader creates
  for its own \<^verbatim>\<open>graphviz\<close> component (\<open>GraphvizSetup\<close>).
\<close>

datatype jsfun = UserFun nat | NativeFun string | GraphvizSetup

datatype jsval =
    Undefined
  | Null
  | Bool bool
  | Num int
  | Str string
  | Arr "jsval list"
  | Obj "(string \<times> jsval) list"
  | Fun jsfun

type_synonym object = "(string \<times> jsval) list"

text \<open>
  Every object the loader reads (\<^verbatim>\<open>_.clone(...)\<close> of a plain object, the literal
  \<^verbatim>\<open>{}\<close>) has \<^verbatim>\<open>Object.prototype\<close> as its prototype, so a property read
  \<^verbatim>\<open>obj[key]\<close> that finds no own property continues there. These are the names
  \<^verbatim>\<open>Object.prototype\<close> defines (ECMAScript, with Annex B).
\<close>

definition prototype_methods :: "string list" where
  "prototype_methods =
     [''constructor'', ''toString'', ''toLocaleString'', ''valueOf'',
      ''hasOwnProperty'', ''isPrototypeOf'', ''propertyIsEnumerable'',
      ''__defineGetter__'', ''__defineSetter__'', ''__lookupGetter__'',
      ''__lookupSetter__'']"

definition inherited :: "string \<Rightarrow> jsval option" where
  "inherited key =
     (if key = ''__proto__'' then Some (Obj [])
      else if key \<in> set prototype_methods then Some (Fun (NativeFun key))
      else None)"

text \<open>\<^verbatim>\<open>obj[key]\<close> on an object: the own property, else the inherited one, else undefined.\<close>

definition member :: "object \<Rightarrow> string \<Rightarrow> jsval" where
  "member obj key =
     (case map_of obj key of
        Some v \<Rightarrow> v
      | None \<Rightarrow> (case inherited key of Some v \<Rightarrow> v | None \<Rightarrow> Undefined))"

text \<open>
  A number used as a property key is its decimal name: \<^verbatim>\<open>String(i)\<close>. An array index
  is a key that is the decimal name of a number below \<open>2\<^sup>3\<^sup>2 - 1\<close>.
\<close>

fun index_name :: "nat \<Rightarrow> string" where
  "index_name n =
     (if n < 10 then [''0123456789'' ! n]
      else index_name (n div 10) @ [''0123456789'' ! (n mod 10)])"

definition digit_value :: "char \<Rightarrow> nat option" where
  "digit_value c =
     (if (48::nat) \<le> of_char c \<and> of_char c \<le> (57::nat) then Some (of_char c - 48) else None)"

fun parse_digits :: "nat \<Rightarrow> string \<Rightarrow> nat option" where
  "parse_digits acc [] = Some acc"
| "parse_digits acc (c # cs) =
     (case digit_value c of
        None \<Rightarrow> None
      | Some d \<Rightarrow> parse_digits (10 * acc + d) cs)"

definition array_index :: "string \<Rightarrow> nat option" where
  "array_index key =
     (if key = [] then None
      else case parse_digits 0 key of
        None \<Rightarrow> None
      | Some n \<Rightarrow> if index_name n = key \<and> int n < 4294967295 then Some n else None)"

text \<open>
  \<^verbatim>\<open>obj[key] = v\<close> for a key other than \<^verbatim>\<open>__proto__\<close>: replaces the own property in
  place, or adds a new one. Array indices enumerate first, in ascending order, the
  other keys after them in the order of their creation.
\<close>

fun replace_at :: "(string \<times> 'v) list \<Rightarrow> string \<Rightarrow> 'v \<Rightarrow> (string \<times> 'v) list" where
  "replace_at [] key v = []"
| "replace_at (p # ps) key v =
     (if fst p = key then (key, v) # ps else p # replace_at ps key v)"

fun insert_index :: "(string \<times> 'v) list \<Rightarrow> nat \<Rightarrow> string \<Rightarrow> 'v \<Rightarrow> (string \<times> 'v) list" where
  "insert_index [] i key v = [(key, v)]"
| "insert_index (p # ps) i key v =
     (case array_index (fst p) of
        Some j \<Rightarrow> if j < i then p # insert_index ps i key v else (key, v) # p # ps
      | None \<Rightarrow> (key, v) # p # ps)"

definition obj_set :: "(string \<times> 'v) list \<Rightarrow> string \<Rightarrow> 'v \<Rightarrow> (string \<times> 'v) list" where
  "obj_set ps key v =
     (if key \<in> set (map fst ps) then replace_at ps key v
      else case array_index key of
        Some i \<Rightarrow> insert_index ps i key v
      | None \<Rightarrow> ps @ [(key, v)])"

text \<open>
  \<^verbatim>\<open>obj[key] = v\<close> for any key, on an object whose prototype is \<^verbatim>\<open>Object.prototype\<close>.
  The key \<^verbatim>\<open>__proto__\<close> is the accessor of the prototype: the assignment makes no own
  property. It replaces the prototype when \<open>v\<close> is an object, which the model does
  not follow: the properties that are stated for objects written this way are stated
  for keys other than \<^verbatim>\<open>__proto__\<close>.
\<close>

definition assign :: "(string \<times> 'v) list \<Rightarrow> string \<Rightarrow> 'v \<Rightarrow> (string \<times> 'v) list" where
  "assign ps key v = (if key = ''__proto__'' then ps else obj_set ps key v)"

datatype defect = NotAnObject | MissingSetup | RequiresNotArray | RequiresNotStrings

text \<open>
  What the code throws, and what a promise is rejected with. The loader throws
  \<^verbatim>\<open>new Error(message)\<close> at four places and asserts with \<^verbatim>\<open>assume\<close> at two; the
  constructors name these places after the specification's taxonomy. \<open>TypeError\<close> is
  the engine's own error for reading a property of \<^verbatim>\<open>null\<close> or \<^verbatim>\<open>undefined\<close>.
  \<open>SetupFailure v\<close> is a setup function that threw \<open>v\<close> (or returned a promise
  rejected with \<open>v\<close>); \<open>OptionFailure v\<close> is an option that is a promise rejected
  with \<open>v\<close>.
\<close>

datatype error =
    VirtualNameCollision
  | InvalidComponent string defect
  | UndefinedComponent string
  | CyclicDependency
  | ReservedName
  | MissingVirtualBinding string
  | TypeError
  | SetupFailure jsval
  | OptionFailure jsval

text \<open>
  \<^verbatim>\<open>v.key\<close> on any value: a \<open>TypeError\<close> on \<^verbatim>\<open>null\<close> and \<^verbatim>\<open>undefined\<close>. The loader
  reads only \<^verbatim>\<open>setup\<close> and \<^verbatim>\<open>requires\<close> this way; no primitive, array or function
  has an own property of these names.
\<close>

fun field :: "jsval \<Rightarrow> string \<Rightarrow> error + jsval" where
  "field Undefined key = Inl TypeError"
| "field Null key = Inl TypeError"
| "field (Obj ps) key = Inr (member ps key)"
| "field v key = Inr (member [] key)"

fun truthy :: "jsval \<Rightarrow> bool" where
  "truthy Undefined = False"
| "truthy Null = False"
| "truthy (Bool b) = b"
| "truthy (Num n) = (n \<noteq> 0)"
| "truthy (Str s) = (s \<noteq> [])"
| "truthy v = True"

fun typeof :: "jsval \<Rightarrow> string" where
  "typeof Undefined = ''undefined''"
| "typeof Null = ''object''"
| "typeof (Bool b) = ''boolean''"
| "typeof (Num n) = ''number''"
| "typeof (Str s) = ''string''"
| "typeof (Arr xs) = ''object''"
| "typeof (Obj ps) = ''object''"
| "typeof (Fun f) = ''function''"

fun is_function :: "jsval \<Rightarrow> bool" where
  "is_function (Fun f) = True"
| "is_function v = False"

fun is_array :: "jsval \<Rightarrow> bool" where
  "is_array (Arr xs) = True"
| "is_array v = False"

fun is_string :: "jsval \<Rightarrow> bool" where
  "is_string (Str s) = True"
| "is_string v = False"

fun elements :: "jsval \<Rightarrow> jsval list" where
  "elements (Arr xs) = xs"
| "elements v = []"

fun str_of :: "jsval \<Rightarrow> string" where
  "str_of (Str s) = s"
| "str_of v = []"

text \<open>\<^verbatim>\<open>includes(a, v)\<close>: \<^verbatim>\<open>a.indexOf(v) !== -1\<close>.\<close>

definition includes_js :: "string list \<Rightarrow> string \<Rightarrow> bool" where
  "includes_js a v = (v \<in> set a)"

section \<open>validateComponent\<close>

definition validateComponent :: "jsval \<Rightarrow> string \<Rightarrow> error + unit" where
  "validateComponent d name =
     (if typeof d \<noteq> ''object'' \<and> d \<noteq> Null \<and> d \<noteq> Undefined
      then Inl (InvalidComponent name NotAnObject)
      else (case field d ''setup'' of
        Inl e \<Rightarrow> Inl e
      | Inr s \<Rightarrow>
          (if \<not> is_function s then Inl (InvalidComponent name MissingSetup)
           else (case field d ''requires'' of
             Inl e \<Rightarrow> Inl e
           | Inr r \<Rightarrow>
               (if truthy r then
                  (if \<not> is_array r then Inl (InvalidComponent name RequiresNotArray)
                   else if \<not> list_all is_string (elements r)
                     then Inl (InvalidComponent name RequiresNotStrings)
                     else Inr ())
                else Inr ())))))"

text \<open>
  \<^verbatim>\<open>def.requires || []\<close>, as the names it holds. For a definition that has passed
  \<open>validateComponent\<close> it is an array of strings or falsy, and the loader iterates
  it, hands it to the sorter and maps \<^verbatim>\<open>load\<close> over it. Where every entry of the
  directory has been validated these are the only definitions it is evaluated for,
  besides the undefined one of a name that is no key, on which the read of
  \<^verbatim>\<open>requires\<close> is a \<open>TypeError\<close>. The same error stands for a value that is not an
  array of strings, which has no \<^verbatim>\<open>map\<close> method or no definition under its entries.
\<close>

definition required :: "jsval \<Rightarrow> error + string list" where
  "required d =
     (case field d ''requires'' of
        Inl e \<Rightarrow> Inl e
      | Inr r \<Rightarrow>
          if \<not> truthy r then Inr []
          else if is_array r \<and> list_all is_string (elements r)
            then Inr (map str_of (elements r))
            else Inl TypeError)"

section \<open>Construction: loader\<close>

text \<open>
  \<^verbatim>\<open>_.forEach(obj, callback)\<close>, \<^verbatim>\<open>_.keys\<close> and \<^verbatim>\<open>_.clone\<close> are functions of the
  package \<^verbatim>\<open>lodash\<close>. \<^verbatim>\<open>_.keys\<close> lists the own keys and \<^verbatim>\<open>_.clone\<close> copies the own
  properties of an object. \<^verbatim>\<open>_.forEach\<close> treats an object as array-like when its
  \<^verbatim>\<open>length\<close> is a number that is a non-negative integer, at most \<open>2\<^sup>5\<^sup>3 - 1\<close>: it
  then calls the callback with \<^verbatim>\<open>obj[i]\<close> and the number \<open>i\<close> for each \<open>i\<close> below
  the length, and never looks at the other keys. Otherwise it calls the callback with
  each own property. \<open>forEach_js\<close> gives the calls as pairs of key and value; the
  loader uses the key in a message, as the name of a node and as a property key, so a
  number appears as its decimal name.
\<close>

definition is_length :: "jsval \<Rightarrow> bool" where
  "is_length v = (case v of Num n \<Rightarrow> 0 \<le> n \<and> n \<le> 9007199254740991 | _ \<Rightarrow> False)"

definition array_like :: "object \<Rightarrow> bool" where
  "array_like obj = is_length (member obj ''length'')"

definition length_of :: "object \<Rightarrow> nat" where
  "length_of obj = (case member obj ''length'' of Num n \<Rightarrow> nat n | _ \<Rightarrow> 0)"

definition forEach_js :: "object \<Rightarrow> (string \<times> jsval) list" where
  "forEach_js obj =
     (if array_like obj
      then map (\<lambda>i. (index_name i, member obj (index_name i))) [0..<length_of obj]
      else obj)"

text \<open>
  The first \<^verbatim>\<open>_.forEach(componentDirectory, ...)\<close> of \<^verbatim>\<open>loader\<close>: each entry is
  validated, then each of its required names is looked up. The lookup is the truthiness
  of \<^verbatim>\<open>componentDirectory[dep]\<close>, so it sees inherited members as well.
\<close>

fun check_requires :: "object \<Rightarrow> string list \<Rightarrow> string list \<Rightarrow> error + unit" where
  "check_requires dir virt [] = Inr ()"
| "check_requires dir virt (dep # deps) =
     (if \<not> truthy (member dir dep) \<and> \<not> includes_js virt dep
      then Inl (UndefinedComponent dep)
      else check_requires dir virt deps)"

fun check_components :: "object \<Rightarrow> string list \<Rightarrow> object \<Rightarrow> error + unit" where
  "check_components dir virt [] = Inr ()"
| "check_components dir virt ((name, d) # rest) =
     (case validateComponent d name of
        Inl e \<Rightarrow> Inl e
      | Inr u \<Rightarrow>
          (case required d of
             Inl e \<Rightarrow> Inl e
           | Inr deps \<Rightarrow>
               (case check_requires dir virt deps of
                  Inl e \<Rightarrow> Inl e
                | Inr u' \<Rightarrow> check_components dir virt rest)))"

text \<open>
  The calls \<^verbatim>\<open>tsort.add(name, def.requires || [])\<close> for the directory and
  \<^verbatim>\<open>tsort.add(name, [])\<close> for the virtual components build this graph: each node
  with the names it requires, in the order of the calls. The first are the calls of
  the second \<^verbatim>\<open>_.forEach(componentDirectory, ...)\<close>.
\<close>

type_synonym graph = "(string \<times> string list) list"

fun add_components :: "object \<Rightarrow> error + graph" where
  "add_components [] = Inr []"
| "add_components ((name, d) # rest) =
     (case required d of
        Inl e \<Rightarrow> Inl e
      | Inr deps \<Rightarrow>
          (case add_components rest of
             Inl e \<Rightarrow> Inl e
           | Inr g \<Rightarrow> Inr ((name, deps) # g)))"

definition add_virtual :: "string list \<Rightarrow> graph" where
  "add_virtual virt = map (\<lambda>name. (name, [])) virt"

text \<open>
  Modelled from the spec: \<^verbatim>\<open>TopoSort.sort\<close> of the package \<^verbatim>\<open>topo-sort\<close>, which is
  not among the sources. The specification says that it computes a deterministic
  topological ordering of the graph and fails with \<open>CyclicDependency\<close> if there is
  none. The model emits, again and again, the first node none of whose required names
  is the name of a node still waiting; when nodes wait and none can be emitted, it
  fails. A node is known by its name as a property key.
\<close>

definition ready :: "graph \<Rightarrow> string \<times> string list \<Rightarrow> bool" where
  "ready pending nd = list_all (\<lambda>d. d \<notin> fst ` set pending) (snd nd)"

function sort_nodes :: "graph \<Rightarrow> string list \<Rightarrow> error + string list" where
  "sort_nodes pending emitted =
     (if pending = [] then Inr emitted
      else case find (ready pending) pending of
        None \<Rightarrow> Inl CyclicDependency
      | Some nd \<Rightarrow> sort_nodes (remove1 nd pending) (emitted @ [fst nd]))"
  by pat_completeness auto
termination
proof (relation "measure (\<lambda>(pending, emitted). length pending)")
  show "wf (measure (\<lambda>(pending, emitted). length pending))" by simp
next
  fix pending :: graph and emitted :: "string list" and nd
  assume "pending \<noteq> []" and "find (ready pending) pending = Some nd"
  then have "nd \<in> set pending" by (auto simp: find_Some_iff)
  then have "length (remove1 nd pending) < length pending"
    using length_pos_if_in_set [of nd pending] by (simp add: length_remove1)
  then show "((remove1 nd pending, emitted @ [fst nd]), (pending, emitted))
      \<in> measure (\<lambda>(pending, emitted). length pending)"
    by simp
qed

definition TopoSort_sort :: "graph \<Rightarrow> error + string list" where
  "TopoSort_sort g = sort_nodes g []"

text \<open>
  What \<^verbatim>\<open>loader\<close> returns is a closure over the cloned directory (with the
  \<^verbatim>\<open>graphviz\<close> component added), the virtual names and the sorted names.
\<close>

record loader_state =
  directory :: object
  virtualComponents :: "string list"
  topoSorted :: "string list"

text \<open>\<^verbatim>\<open>_.intersection(_.keys(componentDirectory), virtualComponents)\<close>.\<close>

definition intersection :: "string list \<Rightarrow> string list \<Rightarrow> string list" where
  "intersection ks virt = filter (\<lambda>k. k \<in> set virt) ks"

text \<open>
  \<^verbatim>\<open>loader(componentDirectory, virtualComponents)\<close>. The clone of the directory has the
  same properties as the directory; which object is written is the subject of the
  store model further down.
\<close>

definition loader :: "object \<Rightarrow> string list \<Rightarrow> error + loader_state" where
  "loader componentDirectory virt =
     (if intersection (map fst componentDirectory) virt \<noteq> [] then Inl VirtualNameCollision
      else case check_components componentDirectory virt (forEach_js componentDirectory) of
        Inl e \<Rightarrow> Inl e
      | Inr u \<Rightarrow>
          (case add_components (forEach_js componentDirectory) of
             Inl e \<Rightarrow> Inl e
           | Inr g \<Rightarrow>
               (case TopoSort_sort (g @ add_virtual virt) of
                  Inl e \<Rightarrow> Inl e
                | Inr order \<Rightarrow>
                    if truthy (member componentDirectory ''graphviz'')
                        \<or> includes_js virt ''graphviz''
                    then Inl ReservedName
                    else Inr \<lparr>directory =
                                obj_set componentDirectory ''graphviz''
                                  (Obj [(''setup'', Fun GraphvizSetup)]),
                              virtualComponents = virt,
                              topoSorted = order\<rparr>)))"

section \<open>renderGraph\<close>

definition quoted :: "string \<Rightarrow> string" where
  "quoted s = [CHR 0x22] @ s @ [CHR 0x22]"

fun render_lines :: "object \<Rightarrow> string list \<Rightarrow> error + string list" where
  "render_lines dir [] = Inr []"
| "render_lines dir (component # rest) =
     (case required (member dir component) of
        Inl e \<Rightarrow> Inl e
      | Inr deps \<Rightarrow>
          (case render_lines dir rest of
             Inl e \<Rightarrow> Inl e
           | Inr ls \<Rightarrow>
               Inr ((''  '' @ quoted component)
                    # map (\<lambda>dep. ''  '' @ quoted component @ '' -> '' @ quoted dep
                                   @ '' [dir=back]'') deps
                    @ ls)))"

fun join_lines :: "string list \<Rightarrow> string" where
  "join_lines [] = []"
| "join_lines [l] = l"
| "join_lines (l # ls) = l @ [CHR 0x0A] @ join_lines ls"

definition renderGraph :: "object \<Rightarrow> string list \<Rightarrow> error + string" where
  "renderGraph dir order =
     (case render_lines dir order of
        Inl e \<Rightarrow> Inl e
      | Inr ls \<Rightarrow>
          Inr (join_lines
                ([''// This graph shows all dependencies for this loader.'',
                  ''// You might find http://www.webgraphviz.com/ useful!'',
                  [],
                  ''digraph G {''] @ ls @ [''}''])))"

section \<open>A load call\<close>

text \<open>
  A promise is modelled by the state it settles in. The table \<^verbatim>\<open>loaded\<close> holds one
  promise for each name, and \<^verbatim>\<open>Promise.all(...).then(...)\<close> runs its callback only
  after every promise it waits for has been fulfilled; so the state a promise settles
  in is a function of the states of the promises it was built from. A setup function
  that never settles is outside the model.

  A session records, besides the table, each invocation of a setup function: the name
  of the component and the context it was called with, in the order the promises were
  created.
\<close>

datatype outcome = Fulfilled jsval | Rejected error

datatype handle = Promise outcome | Plain jsval

record session =
  loaded :: "(string \<times> outcome) list"
  invoked :: "(string \<times> jsval) list"

text \<open>
  What calling a function value does with a context: \<open>Inl v\<close>, it throws \<open>v\<close> or its
  promise is rejected with \<open>v\<close>; \<open>Inr v\<close>, it returns \<open>v\<close> or its promise is
  fulfilled with \<open>v\<close>.
\<close>

type_synonym behaviour = "jsfun \<Rightarrow> jsval \<Rightarrow> jsval + jsval"

text \<open>
  \<^verbatim>\<open>Promise.resolve(v)\<close>, of the package \<^verbatim>\<open>promise\<close>: a promise fulfilled with \<open>v\<close>,
  unless \<open>v\<close> is an object with a callable \<^verbatim>\<open>then\<close>, a promise for instance. The
  promise then follows \<open>v\<close>: it settles as the method \<^verbatim>\<open>then\<close> of \<open>v\<close> says when it
  is called on \<open>v\<close> with the two resolving functions. The behaviour gives this as the
  result of calling the method on the receiver, handed over in an array, which tells
  the call from the call of a setup function, whose argument is an object.
\<close>

definition thenable :: "jsval \<Rightarrow> jsfun option" where
  "thenable v =
     (case v of
        Obj ps \<Rightarrow> (case member ps ''then'' of Fun f \<Rightarrow> Some f | _ \<Rightarrow> None)
      | _ \<Rightarrow> None)"

definition promise_resolve :: "behaviour \<Rightarrow> jsval \<Rightarrow> outcome" where
  "promise_resolve env v =
     (case thenable v of
        None \<Rightarrow> Fulfilled v
      | Some f \<Rightarrow>
          (case env f (Arr [v]) of
             Inl e \<Rightarrow> Rejected (OptionFailure e)
           | Inr w \<Rightarrow> Fulfilled w))"

text \<open>
  \<^verbatim>\<open>loaded[target]\<close>: the promise stored under the name, else the member that the
  table, an object literal, inherits, else undefined (\<open>None\<close>). Every value this
  returns is truthy.
\<close>

definition loaded_at :: "(string \<times> outcome) list \<Rightarrow> string \<Rightarrow> handle option" where
  "loaded_at tbl target =
     (case map_of tbl target of
        Some p \<Rightarrow> Some (Promise p)
      | None \<Rightarrow> map_option Plain (inherited target))"

fun rejection :: "handle \<Rightarrow> error option" where
  "rejection (Promise (Rejected e)) = Some e"
| "rejection h = None"

fun resolved :: "handle \<Rightarrow> jsval" where
  "resolved (Promise (Fulfilled v)) = v"
| "resolved (Plain v) = v"
| "resolved (Promise (Rejected e)) = Undefined"

text \<open>
  The loop \<^verbatim>\<open>ctx[def.requires[i]] = deps[i]\<close>. Under the name \<^verbatim>\<open>__proto__\<close> the
  value assigned is \<^verbatim>\<open>loaded['__proto__']\<close>, the prototype that the context already
  has: the assignment changes nothing.
\<close>

fun build_ctx :: "object \<Rightarrow> string list \<Rightarrow> jsval list \<Rightarrow> object" where
  "build_ctx ctx (name # names) (v # vs) = build_ctx (assign ctx name v) names vs"
| "build_ctx ctx names vs = ctx"

text \<open>
  \<^verbatim>\<open>def.setup.call(null, ctx)\<close> inside the callback of \<^verbatim>\<open>then\<close>: whatever it throws
  rejects the promise. The closure of the \<^verbatim>\<open>graphviz\<close> component renders the
  directory.
\<close>

definition call_setup :: "loader_state \<Rightarrow> behaviour \<Rightarrow> jsfun \<Rightarrow> jsval \<Rightarrow> outcome" where
  "call_setup L env f ctx =
     (case f of
        GraphvizSetup \<Rightarrow>
          (case renderGraph (directory L) (topoSorted L) of
             Inl e \<Rightarrow> Rejected e
           | Inr s \<Rightarrow> Fulfilled (Str s))
      | _ \<Rightarrow> (case env f ctx of Inl v \<Rightarrow> Rejected (SetupFailure v) | Inr v \<Rightarrow> Fulfilled v))"

text \<open>
  \<^verbatim>\<open>Promise.all(handles).then(function (deps) {...})\<close>, for the component \<open>target\<close>
  with definition \<open>d\<close>: the promise it yields settles as returned here, together with
  the invocation of the setup function if there is one. \<^verbatim>\<open>Promise.all\<close> is rejected
  with the reason of the promise that is rejected first in time; timing is not
  modelled, so \<open>race target\<close> chooses among the rejected ones.
\<close>

definition all_then ::
  "loader_state \<Rightarrow> behaviour \<Rightarrow> (string \<Rightarrow> nat) \<Rightarrow> string \<Rightarrow> jsval \<Rightarrow> string list
     \<Rightarrow> handle list \<Rightarrow> outcome \<times> (string \<times> jsval) list" where
  "all_then L env race target d names hs =
     (let rejs = List.map_filter rejection hs in
      if rejs \<noteq> [] then (Rejected (rejs ! (race target mod length rejs)), [])
      else
        let ctx = Obj (build_ctx [] names (map resolved hs)) in
        case field d ''setup'' of
          Inl e \<Rightarrow> (Rejected e, [])
        | Inr (Fun f) \<Rightarrow> (call_setup L env f ctx, [(target, ctx)])
        | Inr v \<Rightarrow> (Rejected TypeError, []))"

text \<open>
  \<^verbatim>\<open>requires.map(load)\<close>: the calls happen in order and share the table; an exception
  in one of them ends the map.
\<close>

fun map_load ::
  "(session \<Rightarrow> string \<Rightarrow> ((error + handle) \<times> session) option) \<Rightarrow> session \<Rightarrow> string list
     \<Rightarrow> ((error + handle list) \<times> session) option" where
  "map_load f s [] = Some (Inr [], s)"
| "map_load f s (name # names) =
     (case f s name of
        None \<Rightarrow> None
      | Some (Inl e, s') \<Rightarrow> Some (Inl e, s')
      | Some (Inr h, s') \<Rightarrow>
          (case map_load f s' names of
             None \<Rightarrow> None
           | Some (Inl e, s'') \<Rightarrow> Some (Inl e, s'')
           | Some (Inr hs, s'') \<Rightarrow> Some (Inr (h # hs), s'')))"

text \<open>
  The inner function \<^verbatim>\<open>load(target)\<close>. The first argument bounds the depth of the
  recursion, which the code leaves to the call stack: \<open>None\<close> is a recursion deeper
  than the bound. \<open>Inl e\<close> is an exception thrown by the call, \<open>Inr h\<close> the value it
  returns.
\<close>

fun load ::
  "loader_state \<Rightarrow> behaviour \<Rightarrow> (string \<Rightarrow> nat) \<Rightarrow> nat \<Rightarrow> session \<Rightarrow> string
     \<Rightarrow> ((error + handle) \<times> session) option" where
  "load L env race 0 s target = None"
| "load L env race (Suc n) s target =
     (case loaded_at (loaded s) target of
        Some h \<Rightarrow> Some (Inr h, s)
      | None \<Rightarrow>
          (let d = member (directory L) target in
           case required d of
             Inl e \<Rightarrow> Some (Inl e, s)
           | Inr names \<Rightarrow>
               (case map_load (load L env race n) s names of
                  None \<Rightarrow> None
                | Some (Inl e, s') \<Rightarrow> Some (Inl e, s')
                | Some (Inr hs, s') \<Rightarrow>
                    (let (p, calls) = all_then L env race target d names hs in
                     Some (Inr (Promise p),
                           \<lparr>loaded = assign (loaded s') target p,
                            invoked = invoked s' @ calls\<rparr>)))))"

text \<open>
  Modelled from the spec: \<^verbatim>\<open>exists\<close> of the assertion package \<^verbatim>\<open>assume\<close>, which is
  not among the sources. The specification asks for an entry of the options for every
  virtual name; the code applies the assertion to the value \<^verbatim>\<open>options[vComp]\<close>, and
  the package counts a value as existing when it is neither \<^verbatim>\<open>undefined\<close> nor
  \<^verbatim>\<open>null\<close>.
\<close>

fun js_exists :: "jsval \<Rightarrow> bool" where
  "js_exists Undefined = False"
| "js_exists Null = False"
| "js_exists v = True"

text \<open>
  The function \<^verbatim>\<open>loader\<close> returns: \<^verbatim>\<open>assume(options[vComp]).exists()\<close> for each
  virtual name, the table seeded by \<^verbatim>\<open>_.forEach(options, ...)\<close> with
  \<^verbatim>\<open>loaded[key] = Promise.resolve(comp)\<close>, then \<^verbatim>\<open>load(target)\<close>.
\<close>

fun check_virtual :: "object \<Rightarrow> string list \<Rightarrow> error + unit" where
  "check_virtual options [] = Inr ()"
| "check_virtual options (vComp # rest) =
     (if js_exists (member options vComp) then check_virtual options rest
      else Inl (MissingVirtualBinding vComp))"

fun seed ::
  "behaviour \<Rightarrow> (string \<times> outcome) list \<Rightarrow> (string \<times> jsval) list \<Rightarrow> (string \<times> outcome) list" where
  "seed env tbl [] = tbl"
| "seed env tbl ((key, v) # rest) = seed env (assign tbl key (promise_resolve env v)) rest"

definition load_call ::
  "loader_state \<Rightarrow> behaviour \<Rightarrow> (string \<Rightarrow> nat) \<Rightarrow> nat \<Rightarrow> string \<Rightarrow> object
     \<Rightarrow> ((error + handle) \<times> session) option" where
  "load_call L env race n target options =
     (case check_virtual options (virtualComponents L) of
        Inl e \<Rightarrow> Some (Inl e, \<lparr>loaded = [], invoked = []\<rparr>)
      | Inr u \<Rightarrow>
          load L env race n \<lparr>loaded = seed env [] (forEach_js options), invoked = []\<rparr> target)"

section \<open>The store: which object each statement writes\<close>

text \<open>
  The functions above pass objects by value. The code passes references: the caller's
  directory and options are objects that the caller still holds after the call. Here
  the objects live in a store, addressed by their index; \<^verbatim>\<open>_.clone(obj)\<close> and an
  object literal allocate a new object, an assignment \<^verbatim>\<open>obj[key] = v\<close> updates the
  object at the address that \<^verbatim>\<open>obj\<close> holds. A definition object inside the directory
  is never written by the loader and stays a value.
\<close>

datatype cell = Dict object | Table "(string \<times> outcome) list"

type_synonym store = "cell list"

definition dict_at :: "store \<Rightarrow> nat \<Rightarrow> object" where
  "dict_at h a = (case h ! a of Dict obj \<Rightarrow> obj | Table tbl \<Rightarrow> [])"

definition table_at :: "store \<Rightarrow> nat \<Rightarrow> (string \<times> outcome) list" where
  "table_at h a = (case h ! a of Table tbl \<Rightarrow> tbl | Dict obj \<Rightarrow> [])"

definition alloc :: "store \<Rightarrow> cell \<Rightarrow> store \<times> nat" where
  "alloc h c = (h @ [c], length h)"

text \<open>\<^verbatim>\<open>_.clone(obj)\<close>: a new object with the own properties of \<^verbatim>\<open>obj\<close>.\<close>

definition clone_js :: "store \<Rightarrow> nat \<Rightarrow> store \<times> nat" where
  "clone_js h a = alloc h (h ! a)"

record loader_closure =
  dir_ref :: nat
  closure_virtual :: "string list"
  closure_sorted :: "string list"

text \<open>
  \<^verbatim>\<open>loader\<close> on the store: \<^verbatim>\<open>componentDirectory = _.clone(componentDirectory)\<close>
  rebinds the variable to the clone, every later statement reads and writes the clone.
\<close>

definition loader_in :: "store \<Rightarrow> nat \<Rightarrow> string list \<Rightarrow> store \<times> (error + loader_closure)" where
  "loader_in h componentDirectory virt =
     (if intersection (map fst (dict_at h componentDirectory)) virt \<noteq> []
      then (h, Inl VirtualNameCollision)
      else
        let (h1, c) = clone_js h componentDirectory in
        case check_components (dict_at h1 c) virt (forEach_js (dict_at h1 c)) of
          Inl e \<Rightarrow> (h1, Inl e)
        | Inr u \<Rightarrow>
            (case add_components (forEach_js (dict_at h1 c)) of
               Inl e \<Rightarrow> (h1, Inl e)
             | Inr g \<Rightarrow>
                 (case TopoSort_sort (g @ add_virtual virt) of
                    Inl e \<Rightarrow> (h1, Inl e)
                  | Inr order \<Rightarrow>
                      if truthy (member (dict_at h1 c) ''graphviz'')
                          \<or> includes_js virt ''graphviz''
                      then (h1, Inl ReservedName)
                      else
                        (h1[c := Dict (obj_set (dict_at h1 c) ''graphviz''
                                         (Obj [(''setup'', Fun GraphvizSetup)]))],
                         Inr \<lparr>dir_ref = c, closure_virtual = virt,
                              closure_sorted = order\<rparr>))))"

text \<open>The loader state a closure denotes in a store.\<close>

definition state_of :: "store \<Rightarrow> loader_closure \<Rightarrow> loader_state" where
  "state_of h cl =
     \<lparr>directory = dict_at h (dir_ref cl),
      virtualComponents = closure_virtual cl,
      topoSorted = closure_sorted cl\<rparr>"

text \<open>
  The returned function on the store: \<^verbatim>\<open>options = _.clone(options)\<close>, the checks,
  \<^verbatim>\<open>var loaded = {}\<close>, the seeding and \<^verbatim>\<open>load(target)\<close>, whose assignments
  \<^verbatim>\<open>loaded[target] = ...\<close> all go to the new table. The result is the store after the
  call, what the call returns or throws, and the setup invocations.
\<close>

definition load_call_in ::
  "loader_closure \<Rightarrow> behaviour \<Rightarrow> (string \<Rightarrow> nat) \<Rightarrow> nat \<Rightarrow> string \<Rightarrow> nat \<Rightarrow> store
     \<Rightarrow> (store \<times> (error + handle) \<times> (string \<times> jsval) list) option" where
  "load_call_in cl env race n target options h =
     (let (h1, opts) = clone_js h options in
      case check_virtual (dict_at h1 opts) (closure_virtual cl) of
        Inl e \<Rightarrow> Some (h1, Inl e, [])
      | Inr u \<Rightarrow>
          (let (h2, tbl) = alloc h1 (Table []);
               h3 = h2[tbl := Table (seed env (table_at h2 tbl) (forEach_js (dict_at h2 opts)))]
           in case load (state_of h3 cl) env race n
                     \<lparr>loaded = table_at h3 tbl, invoked = []\<rparr> target of
                None \<Rightarrow> None
              | Some (r, s) \<Rightarrow> Some (h3[tbl := Table (loaded s)], r, invoked s)))"

section \<open>Notions the properties are stated with\<close>

text \<open>
  What a definition has of its own under a key (\<^verbatim>\<open>setup\<close>, \<^verbatim>\<open>requires\<close>), and the
  definitions that \<open>validateComponent\<close> accepts, stated on the shape of the value.
\<close>

definition own :: "jsval \<Rightarrow> string \<Rightarrow> jsval" where
  "own d key =
     (case d of
        Obj ps \<Rightarrow> (case map_of ps key of Some v \<Rightarrow> v | None \<Rightarrow> Undefined)
      | _ \<Rightarrow> Undefined)"

definition accepted :: "jsval \<Rightarrow> bool" where
  "accepted d =
     ((\<exists>ps. d = Obj ps) \<and> is_function (own d ''setup'') \<and>
      (\<not> truthy (own d ''requires'') \<or>
       (is_array (own d ''requires'') \<and> list_all is_string (elements (own d ''requires'')))))"

text \<open>
  The dependency graph of a directory: an edge from each entry to each name it requires.
  Virtual components are nodes without edges. A graph has a cycle when some name
  reaches itself along one edge or more.
\<close>

definition edges :: "graph \<Rightarrow> (string \<times> string) set" where
  "edges g = {(n, d). \<exists>ds. (n, ds) \<in> set g \<and> d \<in> set ds}"

definition dependency_graph :: "object \<Rightarrow> string list \<Rightarrow> graph" where
  "dependency_graph dir virt =
     map (\<lambda>(name, d). (name, case required d of Inr deps \<Rightarrow> deps | Inl e \<Rightarrow> [])) dir
     @ add_virtual virt"

definition has_cycle :: "object \<Rightarrow> string list \<Rightarrow> bool" where
  "has_cycle dir virt = (\<exists>x. (x, x) \<in> (edges (dependency_graph dir virt))\<^sup>+)"

text \<open>What a loader state makes \<^verbatim>\<open>load\<close> recurse on: the names a component requires.\<close>

definition requires_of :: "loader_state \<Rightarrow> string \<Rightarrow> string list" where
  "requires_of L name =
     (case required (member (directory L) name) of Inr names \<Rightarrow> names | Inl e \<Rightarrow> [])"

definition requires_rel :: "loader_state \<Rightarrow> (string \<times> string) set" where
  "requires_rel L = {(t, d). d \<in> set (requires_of L t)}"

section \<open>Invariants of a session\<close>

text \<open>
  The handles \<^verbatim>\<open>loaded[name]\<close> of a list of names in a table, and what the promise of
  a component settles to when it is built from the handles its required names have in
  the table. A table extends another when it keeps its entries and adds only names that
  are not names of inherited members. A node of the table is in order when its promise
  is the one built from the handles of its required names, all of them present, and
  the recorded invocations of its setup function are exactly those of that promise. A
  session is in order, relative to the table it started from, when no name was
  invoked twice, the table extends the initial one, only names added to the table were
  invoked, and every added node is in order. A step from a session to another adds
  only names reachable from the given targets.
\<close>

definition handles :: "(string \<times> outcome) list \<Rightarrow> string list \<Rightarrow> handle list" where
  "handles tbl names = map (\<lambda>d. the (loaded_at tbl d)) names"

definition settles ::
  "loader_state \<Rightarrow> behaviour \<Rightarrow> (string \<Rightarrow> nat) \<Rightarrow> (string \<times> outcome) list \<Rightarrow> string
     \<Rightarrow> outcome \<times> (string \<times> jsval) list" where
  "settles L env race tbl x =
     all_then L env race x (member (directory L) x) (requires_of L x)
       (handles tbl (requires_of L x))"

definition extends :: "(string \<times> outcome) list \<Rightarrow> (string \<times> outcome) list \<Rightarrow> bool" where
  "extends tbl tbl' \<longleftrightarrow>
     map_of tbl \<subseteq>\<^sub>m map_of tbl' \<and>
     (\<forall>x. x \<in> fst ` set tbl' \<and> x \<notin> fst ` set tbl \<longrightarrow> inherited x = None)"

definition node_ok ::
  "loader_state \<Rightarrow> behaviour \<Rightarrow> (string \<Rightarrow> nat) \<Rightarrow> session \<Rightarrow> string \<Rightarrow> bool" where
  "node_ok L env race s x \<longleftrightarrow>
     inherited x = None \<and>
     required (member (directory L) x) = Inr (requires_of L x) \<and>
     (\<forall>d \<in> set (requires_of L x). loaded_at (loaded s) d \<noteq> None) \<and>
     map_of (loaded s) x = Some (fst (settles L env race (loaded s) x)) \<and>
     {c \<in> set (invoked s). fst c = x} = set (snd (settles L env race (loaded s) x))"

definition session_ok ::
  "loader_state \<Rightarrow> behaviour \<Rightarrow> (string \<Rightarrow> nat) \<Rightarrow> (string \<times> outcome) list \<Rightarrow> session \<Rightarrow> bool" where
  "session_ok L env race tbl0 s \<longleftrightarrow>
     distinct (map fst (invoked s)) \<and>
     extends tbl0 (loaded s) \<and>
     (\<forall>c \<in> set (invoked s). fst c \<in> fst ` set (loaded s) \<and> fst c \<notin> fst ` set tbl0) \<and>
     (\<forall>x. x \<in> fst ` set (loaded s) \<and> x \<notin> fst ` set tbl0 \<longrightarrow> node_ok L env race s x)"


definition step ::
  "loader_state \<Rightarrow> behaviour \<Rightarrow> (string \<Rightarrow> nat) \<Rightarrow> (string \<times> outcome) list \<Rightarrow> session
     \<Rightarrow> string set \<Rightarrow> session \<Rightarrow> bool" where
  "step L env race tbl0 s T s' \<longleftrightarrow>
     session_ok L env race tbl0 s' \<and> extends (loaded s) (loaded s') \<and>
     (\<forall>x. x \<in> fst ` set (loaded s') \<and> x \<notin> fst ` set (loaded s) \<longrightarrow>
        (\<exists>t \<in> T. (t, x) \<in> (requires_rel L)\<^sup>*))"


section \<open>Example inputs\<close>

text \<open>
  A component definition \<^verbatim>\<open>{requires: names, setup: f}\<close> with \<^verbatim>\<open>f\<close> the caller's
  function number \<open>i\<close>; a behaviour in which the functions of even number return (a
  pair of their number and the context they got) and those of odd number throw (their
  number); and the timing in which the first rejected promise of a list is rejected
  first.
\<close>

definition component :: "string list \<Rightarrow> nat \<Rightarrow> jsval" where
  "component names i = Obj [(''requires'', Arr (map Str names)), (''setup'', Fun (UserFun i))]"

definition even_succeeds :: behaviour where
  "even_succeeds f ctx =
     (case f of
        UserFun i \<Rightarrow> if even i then Inr (Arr [Num (int i), ctx]) else Inl (Num (int i))
      | _ \<Rightarrow> Inr Undefined)"

definition first_rejected :: "string \<Rightarrow> nat" where
  "first_rejected target = 0"

definition graphviz_entry :: "string \<times> jsval" where
  "graphviz_entry = (''graphviz'', Obj [(''setup'', Fun GraphvizSetup)])"

definition diamond :: "nat \<Rightarrow> nat \<Rightarrow> nat \<Rightarrow> nat \<Rightarrow> object" where
  "diamond a b c d =
     [(''A'', component [''B'', ''C''] a), (''B'', component [''D''] b),
      (''C'', component [''D''] c), (''D'', component [] d)]"




definition with_db :: object where
  "with_db = [(''target'', component [''db''] 0), (''db'', component [] 1)]"

definition loader_of :: "object \<Rightarrow> string list \<Rightarrow> loader_state" where
  "loader_of dir order =
     \<lparr>directory = dir @ [graphviz_entry], virtualComponents = [], topoSorted = order\<rparr>"


text \<open>
  A store of the caller: the directory at address 0, the options at address 1.
\<close>

definition caller_store :: store where
  "caller_store = [Dict with_db, Dict [(''db'', Str ''mock'')]]"

section \<open>Facts about values and objects\<close>

lemma inherited_setup [simp]: "inherited ''setup'' = None"
  by (simp add: inherited_def prototype_methods_def)

lemma inherited_requires [simp]: "inherited ''requires'' = None"
  by (simp add: inherited_def prototype_methods_def)

lemma inherited_graphviz [simp]: "inherited ''graphviz'' = None"
  by (simp add: inherited_def prototype_methods_def)

lemma member_own:
  "inherited key = None \<Longrightarrow>
     member obj key = (case map_of obj key of Some v \<Rightarrow> v | None \<Rightarrow> Undefined)"
  by (simp add: member_def split: option.splits)

section \<open>validateComponent\<close>

lemma field_error: "field d key = Inl e \<Longrightarrow> e = TypeError"
  by (cases d) auto

lemma validate_accepted: "validateComponent d name = Inr () \<longleftrightarrow> accepted d"
  by (cases d)
    (auto simp: validateComponent_def accepted_def own_def member_own
          split: sum.splits if_splits option.splits)

lemma validate_error:
  "validateComponent d name = Inl e \<Longrightarrow> e = TypeError \<or> (\<exists>c. e = InvalidComponent name c)"
  by (auto simp: validateComponent_def split: if_splits sum.splits dest: field_error)

lemma validateComponent_cases:
  "(validateComponent d name = Inr () \<longleftrightarrow> accepted d) \<and>
   (validateComponent d name = Inl TypeError \<longleftrightarrow> d = Null \<or> d = Undefined) \<and>
   ((\<exists>c. validateComponent d name = Inl (InvalidComponent name c)) \<longleftrightarrow>
      d \<noteq> Null \<and> d \<noteq> Undefined \<and> \<not> accepted d)"
  by (cases d)
    (auto simp: validateComponent_def accepted_def own_def member_own
          split: sum.splits if_splits option.splits)

text \<open>
  C7. Validation, and with it construction, is to fail with \<open>InvalidComponent\<close> for
  a definition that is \<^verbatim>\<open>null\<close> or \<^verbatim>\<open>undefined\<close>, and for one whose \<^verbatim>\<open>requires\<close> is
  present and is not a sequence of strings. The first test of \<open>validateComponent\<close>
  lets \<^verbatim>\<open>null\<close> and \<^verbatim>\<open>undefined\<close> through, and what fails is the read of
  \<^verbatim>\<open>def.setup\<close>, with a \<open>TypeError\<close>: for the directories \<^verbatim>\<open>{a: null}\<close> and
  \<^verbatim>\<open>{a: undefined}\<close> construction ends with that error. The test of
  \<^verbatim>\<open>def.requires\<close> is on its truthiness, so the definition
  \<^verbatim>\<open>{setup: f, requires: 0}\<close> is accepted and its directory constructed.
\<close>

theorem null_definition_type_error:
  "validateComponent Null ''a'' = Inl TypeError \<and>
   validateComponent Undefined ''a'' = Inl TypeError \<and>
   loader [(''a'', Null)] [] = Inl TypeError \<and>
   loader [(''a'', Undefined)] [] = Inl TypeError \<and>
   validateComponent (Obj [(''setup'', Fun (UserFun 0)), (''requires'', Num 0)]) ''a'' = Inr () \<and>
   loader [(''a'', Obj [(''setup'', Fun (UserFun 0)), (''requires'', Num 0)])] [] =
     Inr \<lparr>directory = [(''a'', Obj [(''setup'', Fun (UserFun 0)), (''requires'', Num 0)]),
                       (''graphviz'', Obj [(''setup'', Fun GraphvizSetup)])],
          virtualComponents = [], topoSorted = [''a'']\<rparr>"
  by code_simp

section \<open>Facts about construction\<close>


declare sort_nodes.simps [simp del]

lemma sort_nodes_error: "sort_nodes pending emitted = Inl e \<Longrightarrow> e = CyclicDependency"
proof (induction pending emitted rule: sort_nodes.induct)
  case (1 pending emitted)
  then show ?case
    by (subst (asm) (2) sort_nodes.simps) (auto split: if_splits option.splits)
qed

lemma required_error: "required d = Inl e \<Longrightarrow> e = TypeError"
  by (cases d) (auto simp: required_def split: if_splits)

lemma accepted_required:
  "accepted d \<Longrightarrow> \<exists>deps. required d = Inr deps"
  by (auto simp: accepted_def required_def own_def member_own split: option.splits)

lemma accepted_truthy: "accepted d \<Longrightarrow> truthy d"
  by (auto simp: accepted_def)


lemma check_requires_error:
  "check_requires dir virt deps = Inl e \<Longrightarrow>
     \<exists>x \<in> set deps. e = UndefinedComponent x \<and> \<not> truthy (member dir x) \<and> x \<notin> set virt"
  by (induction deps) (auto simp: includes_js_def split: if_splits)

lemma check_components_ok:
  "check_components dir virt rest = Inr () \<longleftrightarrow>
     (\<forall>(name, d) \<in> set rest. accepted d \<and>
        (\<forall>deps. required d = Inr deps \<longrightarrow> check_requires dir virt deps = Inr ()))"
proof (induction rest)
  case Nil
  then show ?case by simp
next
  case (Cons p rest)
  obtain name d where p: "p = (name, d)" by (cases p)
  show ?case
  proof (cases "accepted d")
    case True
    then obtain deps where deps: "required d = Inr deps" using accepted_required by blast
    from True have v: "validateComponent d name = Inr ()" by (simp add: validate_accepted)
    show ?thesis
    proof (cases "check_requires dir virt deps")
      case (Inl e)
      with deps v p show ?thesis by auto
    next
      case (Inr u)
      with deps v p True Cons show ?thesis by auto
    qed
  next
    case False
    then have "\<exists>e. validateComponent d name = Inl e"
      using validate_accepted [of d name] by (cases "validateComponent d name") auto
    with False p show ?thesis by auto
  qed
qed

lemma check_components_error:
  "check_components dir virt rest = Inl e \<Longrightarrow>
     e = TypeError \<or> (\<exists>n c. e = InvalidComponent n c) \<or> (\<exists>x. e = UndefinedComponent x)"
proof (induction rest)
  case Nil
  then show ?case by simp
next
  case (Cons p rest)
  obtain name d where p: "p = (name, d)" by (cases p)
  from Cons p show ?case
    by (auto split: sum.splits dest: validate_error required_error check_requires_error)
qed

lemma add_components_accepted:
  "\<forall>(name, d) \<in> set dir. accepted d \<Longrightarrow>
     add_components dir =
       Inr (map (\<lambda>(name, d). (name, case required d of Inr deps \<Rightarrow> deps | Inl e \<Rightarrow> [])) dir)"
proof (induction dir)
  case Nil
  then show ?case by simp
next
  case (Cons p dir)
  obtain name d where p: "p = (name, d)" by (cases p)
  with Cons obtain deps where "required d = Inr deps" using accepted_required by fastforce
  with Cons p show ?case by auto
qed

lemma checked_graph:
  "check_components dir virt dir = Inr () \<Longrightarrow>
     \<exists>g. add_components dir = Inr g \<and> g @ add_virtual virt = dependency_graph dir virt"
  using add_components_accepted [of dir]
  by (auto simp: check_components_ok dependency_graph_def)

lemma inherited_length [simp]: "inherited ''length'' = None"
  by (simp add: inherited_def prototype_methods_def)

lemma forEach_js_keys [simp]: "\<not> array_like obj \<Longrightarrow> forEach_js obj = obj"
  by (simp add: forEach_js_def)

lemma accepted_not_length: "accepted d \<Longrightarrow> \<not> is_length d"
  by (auto simp: accepted_def is_length_def)

lemma all_accepted_keys:
  assumes "\<forall>(name, d) \<in> set dir. accepted d"
  shows "\<not> array_like dir"
proof (cases "map_of dir ''length''")
  case None
  then show ?thesis by (simp add: array_like_def member_def is_length_def)
next
  case (Some d)
  then have "(''length'', d) \<in> set dir" by (rule map_of_SomeD)
  with assms have "accepted d" by auto
  with Some show ?thesis by (simp add: array_like_def member_def accepted_not_length)
qed

lemma checked_keys: "check_components dir virt dir = Inr () \<Longrightarrow> \<not> array_like dir"
  by (rule all_accepted_keys) (auto simp: check_components_ok)

lemma checked_member:
  assumes "check_components dir virt dir = Inr ()" and "key \<in> fst ` set dir"
  shows "accepted (member dir key)"
proof -
  from assms(2) obtain d where "map_of dir key = Some d"
    by (metis domD dom_map_of_conv_image_fst)
  moreover then have "(key, d) \<in> set dir" by (rule map_of_SomeD)
  ultimately show ?thesis using assms(1) by (auto simp: check_components_ok member_def)
qed

lemma member_truthy_own:
  "inherited key = None \<Longrightarrow> truthy (member dir key) \<Longrightarrow> key \<in> fst ` set dir"
  by (auto simp: member_own split: option.splits dest: map_of_SomeD intro: rev_image_eqI)

text \<open>
  C4 (as amended). For a directory that is iterated by its keys (its \<^verbatim>\<open>length\<close>, if it
  has one, is not a non-negative integer): construction fails with \<open>ReservedName\<close>
  exactly when the directory defines \<^verbatim>\<open>graphviz\<close> or the virtual components declare
  it and every other check has passed: no name is both a key and virtual, every entry
  is an accepted definition whose required names are found, and the sorter has found
  an order. The check of the reserved name is the last step of construction.
\<close>

theorem reserved_name_last:
  assumes "\<not> array_like dir"
  shows "loader dir virt = Inl ReservedName \<longleftrightarrow>
     intersection (map fst dir) virt = [] \<and>
     check_components dir virt dir = Inr () \<and>
     (\<exists>order. TopoSort_sort (dependency_graph dir virt) = Inr order) \<and>
     (''graphviz'' \<in> fst ` set dir \<or> ''graphviz'' \<in> set virt)"
proof (cases "intersection (map fst dir) virt = []")
  case False
  then show ?thesis by (simp add: loader_def)
next
  case disjoint: True
  show ?thesis
  proof (cases "check_components dir virt dir")
    case (Inl e)
    with check_components_error [OF Inl] disjoint assms show ?thesis
      by (auto simp: loader_def)
  next
    case (Inr u)
    then have ok: "check_components dir virt dir = Inr ()" by simp
    from checked_graph [OF ok] obtain g where
      g: "add_components dir = Inr g" "g @ add_virtual virt = dependency_graph dir virt"
      by blast
    show ?thesis
    proof (cases "TopoSort_sort (dependency_graph dir virt)")
      case (Inl e)
      then have "e = CyclicDependency"
        by (auto simp: TopoSort_sort_def dest: sort_nodes_error)
      with Inl disjoint ok g assms show ?thesis by (simp add: loader_def)
    next
      case (Inr order)
      have "truthy (member dir ''graphviz'') \<longleftrightarrow> ''graphviz'' \<in> fst ` set dir"
        using checked_member [OF ok, of "''graphviz''"] member_truthy_own [of "''graphviz''" dir]
        by (auto dest: accepted_truthy)
      with Inr disjoint ok g assms show ?thesis
        by (simp add: loader_def includes_js_def)
    qed
  qed
qed

theorem reserved_name_last_witness:
  "loader [(''graphviz'', component [] 0)] [] = Inl ReservedName \<and>
   loader [(''a'', component [''graphviz''] 0)] [''graphviz''] = Inl ReservedName"
proof -
  have 1: "intersection (map fst [(''graphviz'', component [] 0)]) [] = []"
    and 2: "check_components [(''graphviz'', component [] 0)] []
              [(''graphviz'', component [] 0)] = Inr ()"
    and 3: "TopoSort_sort (dependency_graph [(''graphviz'', component [] 0)] [])
              = Inr [''graphviz'']"
    by code_simp+
  have 4: "intersection (map fst [(''a'', component [''graphviz''] 0)]) [''graphviz''] = []"
    and 5: "check_components [(''a'', component [''graphviz''] 0)] [''graphviz'']
              [(''a'', component [''graphviz''] 0)] = Inr ()"
    and 6: "TopoSort_sort (dependency_graph [(''a'', component [''graphviz''] 0)] [''graphviz''])
              = Inr [''graphviz'', ''a'']"
    by code_simp+
  have 7: "\<not> array_like [(''graphviz'', component [] 0)]"
    and 8: "\<not> array_like [(''a'', component [''graphviz''] 0)]"
    by (simp_all add: array_like_def member_def is_length_def)
  show ?thesis
    using reserved_name_last [OF 7, of "[]"] reserved_name_last [OF 8, of "[''graphviz'']"]
      1 2 3 4 5 6
    by simp
qed

text \<open>
  C4 as stated fails: a directory that defines \<^verbatim>\<open>graphviz\<close> and requires an undefined
  name is refused for the undefined name, a directory that defines it on a cycle is
  refused for the cycle.
\<close>

theorem reserved_name_counterexample:
  "loader [(''graphviz'', component [''nope''] 0)] [] = Inl (UndefinedComponent ''nope'') \<and>
   loader [(''graphviz'', component [''graphviz''] 0)] [] = Inl CyclicDependency"
  by code_simp

section \<open>Facts about assignments and tables\<close>

lemma replace_at_keys [simp]: "fst ` set (replace_at ps key v) = fst ` set ps"
  by (induction ps) auto

lemma map_of_replace_at:
  "key \<in> fst ` set ps \<Longrightarrow> map_of (replace_at ps key v) = (map_of ps)(key \<mapsto> v)"
  by (induction ps) (force simp: fun_eq_iff)+

lemma insert_index_set [simp]: "set (insert_index ps i key v) = insert (key, v) (set ps)"
  by (induction ps) (auto split: option.splits)

lemma map_of_insert_index:
  "key \<notin> fst ` set ps \<Longrightarrow> map_of (insert_index ps i key v) = (map_of ps)(key \<mapsto> v)"
  by (induction ps) (auto simp: fun_eq_iff split: option.splits)

lemma map_of_append_new:
  "key \<notin> fst ` set ps \<Longrightarrow> map_of (ps @ [(key, v)]) = (map_of ps)(key \<mapsto> v)"
  by (induction ps) (auto simp: fun_eq_iff)

lemma obj_set_keys [simp]: "fst ` set (obj_set ps key v) = insert key (fst ` set ps)"
  by (auto simp: obj_set_def split: option.splits)

lemma map_of_obj_set [simp]: "map_of (obj_set ps key v) = (map_of ps)(key \<mapsto> v)"
  by (simp add: obj_set_def map_of_replace_at map_of_insert_index map_of_append_new
      del: map_of_append split: option.splits)

lemma inherited_proto [simp]: "inherited ''__proto__'' = Some (Obj [])"
  by (simp add: inherited_def)

lemma assign_keys:
  "fst ` set (assign ps key v) =
     (if key = ''__proto__'' then fst ` set ps else insert key (fst ` set ps))"
  by (simp add: assign_def)

lemma map_of_assign:
  "map_of (assign ps key v) =
     (if key = ''__proto__'' then map_of ps else (map_of ps)(key \<mapsto> v))"
  by (simp add: assign_def)

lemma assign_own: "inherited key = None \<Longrightarrow> assign ps key v = obj_set ps key v"
  by (auto simp: assign_def)

lemma seed_keys:
  "fst ` set (seed env tbl entries) = fst ` set tbl \<union> (fst ` set entries - {''__proto__''})"
  by (induction env tbl entries rule: seed.induct) (auto simp: assign_keys)

lemma seed_absent:
  "k \<notin> fst ` set entries \<Longrightarrow> map_of (seed env tbl entries) k = map_of tbl k"
  by (induction env tbl entries rule: seed.induct) (auto simp: map_of_assign)

lemma seed_present:
  "distinct (map fst entries) \<Longrightarrow> (k, v) \<in> set entries \<Longrightarrow> k \<noteq> ''__proto__'' \<Longrightarrow>
     map_of (seed env tbl entries) k = Some (promise_resolve env v)"
proof (induction env tbl entries rule: seed.induct)
  case (1 env tbl)
  then show ?case by simp
next
  case (2 env tbl key v' rest)
  show ?case
  proof (cases "(k, v) \<in> set rest")
    case True
    with 2 show ?thesis by simp
  next
    case False
    with "2.prems" have "k = key" "v = v'" "k \<notin> fst ` set rest" by auto
    with "2.prems"(3) show ?thesis by (simp add: seed_absent map_of_assign)
  qed
qed

lemma promise_resolve_plain: "thenable v = None \<Longrightarrow> promise_resolve env v = Fulfilled v"
  by (simp add: promise_resolve_def)

section \<open>Facts about a load call\<close>

lemma map_of_None_iff: "map_of ps key = None \<longleftrightarrow> key \<notin> fst ` set ps"
  by (simp add: map_of_eq_None_iff)

lemma loaded_at_None:
  "loaded_at tbl target = None \<longleftrightarrow> target \<notin> fst ` set tbl \<and> inherited target = None"
  by (auto simp: loaded_at_def map_of_eq_None_iff [symmetric]
      split: option.splits)

lemma member_absent:
  "key \<notin> fst ` set obj \<Longrightarrow> inherited key = None \<Longrightarrow> member obj key = Undefined"
  by (simp add: member_def map_of_eq_None_iff [symmetric])

lemma loader_result:
  assumes "loader dir virt = Inr L"
  shows "intersection (map fst dir) virt = []"
    and "check_components dir virt (forEach_js dir) = Inr ()"
    and "\<not> truthy (member dir ''graphviz'')" and "''graphviz'' \<notin> set virt"
    and "directory L = obj_set dir ''graphviz'' (Obj [(''setup'', Fun GraphvizSetup)])"
    and "virtualComponents L = virt"
  using assms by (auto simp: loader_def includes_js_def split: if_splits sum.splits)

lemma loader_ok:
  assumes "loader dir virt = Inr L" and "\<not> array_like dir"
  shows "intersection (map fst dir) virt = []"
    and "check_components dir virt dir = Inr ()"
    and "\<exists>order. TopoSort_sort (dependency_graph dir virt) = Inr order \<and> topoSorted L = order"
    and "''graphviz'' \<notin> fst ` set dir" and "''graphviz'' \<notin> set virt"
    and "directory L = obj_set dir ''graphviz'' (Obj [(''setup'', Fun GraphvizSetup)])"
    and "virtualComponents L = virt"
proof -
  from assms(1) show disjoint: "intersection (map fst dir) virt = []"
    by (rule loader_result(1))
  from loader_result(2) [OF assms(1)] assms(2) show ok: "check_components dir virt dir = Inr ()"
    by simp
  from checked_graph [OF ok] obtain g where
    g: "add_components dir = Inr g" "g @ add_virtual virt = dependency_graph dir virt"
    by blast
  from assms disjoint ok g
  show "\<exists>order. TopoSort_sort (dependency_graph dir virt) = Inr order \<and> topoSorted L = order"
    by (auto simp: loader_def split: sum.splits if_splits)
  from loader_result(3) [OF assms(1)] show "''graphviz'' \<notin> fst ` set dir"
    using checked_member [OF ok, of "''graphviz''"] by (auto dest: accepted_truthy)
  from assms(1) show "''graphviz'' \<notin> set virt" by (rule loader_result(4))
  from assms(1)
  show "directory L = obj_set dir ''graphviz'' (Obj [(''setup'', Fun GraphvizSetup)])"
    by (rule loader_result(5))
  from assms(1) show "virtualComponents L = virt" by (rule loader_result(6))
qed

lemma unknown_target_throws:
  assumes "loader dir virt = Inr L"
    and "target \<notin> fst ` set dir" and "target \<noteq> ''graphviz''"
    and "target \<notin> fst ` set (forEach_js options)" and "inherited target = None"
  shows "load_call L env race (Suc n) target options =
     (case check_virtual options virt of
        Inl e \<Rightarrow> Some (Inl e, \<lparr>loaded = [], invoked = []\<rparr>)
      | Inr u \<Rightarrow>
          Some (Inl TypeError,
            \<lparr>loaded = seed env [] (forEach_js options), invoked = []\<rparr>))"
proof -
  have "loaded_at (seed env [] (forEach_js options)) target = None"
    using assms(4,5) by (simp add: loaded_at_None seed_keys)
  moreover have "member (directory L) target = Undefined"
    using assms(2,3,5) loader_result(5) [OF assms(1)] by (simp add: member_absent)
  ultimately show ?thesis
    using loader_result(6) [OF assms(1)]
    by (simp add: load_call_def required_def split: sum.splits)
qed

text \<open>
  C10. A call \<^verbatim>\<open>load(target)\<close> whose target names no entry, no virtual component
  and no option is to throw. The test \<^verbatim>\<open>if (!loaded[target])\<close> reads the table, an
  object literal, through its prototype: for the target \<^verbatim>\<open>toString\<close> it finds the
  method every object inherits, which is truthy, and the call returns that function
  without throwing. And the table is seeded by \<^verbatim>\<open>_.forEach(options, ...)\<close>, which
  takes the options \<^verbatim>\<open>{length: 1}\<close> for an array: it sets \<^verbatim>\<open>loaded[0]\<close>, and the call
  with the target \<^verbatim>\<open>0\<close>, which is no key of the options, returns a promise.
\<close>

theorem inherited_target_returned:
  "loader [] [] = Inr \<lparr>directory = [graphviz_entry], virtualComponents = [], topoSorted = []\<rparr> \<and>
   load_call \<lparr>directory = [graphviz_entry], virtualComponents = [], topoSorted = []\<rparr>
     even_succeeds first_rejected (Suc 0) ''toString'' []
   = Some (Inr (Plain (Fun (NativeFun ''toString''))), \<lparr>loaded = [], invoked = []\<rparr>) \<and>
   ''0'' \<notin> fst ` set [(''length'', Num 1)] \<and>
   load_call \<lparr>directory = [graphviz_entry], virtualComponents = [], topoSorted = []\<rparr>
     even_succeeds first_rejected (Suc 0) ''0'' [(''length'', Num 1)]
   = Some (Inr (Promise (Fulfilled Undefined)),
       \<lparr>loaded = [(''0'', Fulfilled Undefined)], invoked = []\<rparr>)"
  by code_simp

lemma check_virtual_ok:
  "check_virtual options virt = Inr () \<longleftrightarrow> (\<forall>v \<in> set virt. js_exists (member options v))"
  by (induction virt) auto

lemma check_virtual_error:
  "check_virtual options virt = Inl e \<Longrightarrow>
     \<exists>v \<in> set virt. e = MissingVirtualBinding v \<and> \<not> js_exists (member options v)"
  by (induction virt) (auto split: if_splits)

text \<open>
  C5 (as amended). If a virtual name is no key of the options and no name of an
  inherited member, or more generally if \<^verbatim>\<open>options[name]\<close> is \<^verbatim>\<open>undefined\<close> or
  \<^verbatim>\<open>null\<close> for a virtual name, the call throws \<open>MissingVirtualBinding\<close> with an empty
  table and no setup function invoked. If \<^verbatim>\<open>options[name]\<close> is neither for every
  virtual name, and the options are an object that is iterated by its keys, none of
  them \<^verbatim>\<open>__proto__\<close>, the call is \<^verbatim>\<open>load(target)\<close> on a table whose keys are the keys
  of the options, each with the promise that \<^verbatim>\<open>Promise.resolve\<close> makes of its value.
\<close>

theorem virtual_binding:
  "(v \<in> set (virtualComponents L) \<and> v \<notin> fst ` set options \<and> inherited v = None \<longrightarrow>
      (\<exists>w \<in> set (virtualComponents L).
         load_call L env race n target options =
           Some (Inl (MissingVirtualBinding w), \<lparr>loaded = [], invoked = []\<rparr>))) \<and>
   ((\<exists>v \<in> set (virtualComponents L). \<not> js_exists (member options v)) \<longrightarrow>
      (\<exists>w \<in> set (virtualComponents L).
         load_call L env race n target options =
           Some (Inl (MissingVirtualBinding w), \<lparr>loaded = [], invoked = []\<rparr>))) \<and>
   ((\<forall>v \<in> set (virtualComponents L). js_exists (member options v)) \<and>
    \<not> array_like options \<and> distinct (map fst options) \<and> ''__proto__'' \<notin> fst ` set options \<longrightarrow>
      (\<exists>tbl. load_call L env race n target options =
                load L env race n \<lparr>loaded = tbl, invoked = []\<rparr> target \<and>
             fst ` set tbl = fst ` set options \<and>
             (\<forall>(k, x) \<in> set options. map_of tbl k = Some (promise_resolve env x))))"
proof -
  have missing: "\<exists>w \<in> set (virtualComponents L).
         load_call L env race n target options =
           Some (Inl (MissingVirtualBinding w), \<lparr>loaded = [], invoked = []\<rparr>)"
    if "\<exists>v \<in> set (virtualComponents L). \<not> js_exists (member options v)"
  proof (cases "check_virtual options (virtualComponents L)")
    case (Inl e)
    with check_virtual_error [OF Inl] show ?thesis by (auto simp: load_call_def)
  next
    case (Inr u)
    with that show ?thesis by (auto simp: check_virtual_ok)
  qed
  have bound: "\<exists>tbl. load_call L env race n target options =
                load L env race n \<lparr>loaded = tbl, invoked = []\<rparr> target \<and>
             fst ` set tbl = fst ` set options \<and>
             (\<forall>(k, x) \<in> set options. map_of tbl k = Some (promise_resolve env x))"
    if all: "\<forall>v \<in> set (virtualComponents L). js_exists (member options v)"
      and keys: "\<not> array_like options" and dist: "distinct (map fst options)"
      and proto: "''__proto__'' \<notin> fst ` set options"
  proof (intro exI conjI)
    from all have "check_virtual options (virtualComponents L) = Inr ()"
      by (simp add: check_virtual_ok)
    with keys show "load_call L env race n target options =
        load L env race n \<lparr>loaded = seed env [] options, invoked = []\<rparr> target"
      by (simp add: load_call_def)
    from proto show "fst ` set (seed env [] options) = fst ` set options"
      by (simp add: seed_keys)
    show "\<forall>(k, x) \<in> set options. map_of (seed env [] options) k = Some (promise_resolve env x)"
    proof (clarify)
      fix k x assume kx: "(k, x) \<in> set options"
      with proto have "k \<noteq> ''__proto__''" by force
      with dist kx show "map_of (seed env [] options) k = Some (promise_resolve env x)"
        by (rule seed_present)
    qed
  qed
  have absent: "\<not> js_exists (member options v)"
    if "v \<notin> fst ` set options" "inherited v = None"
    using that by (simp add: member_absent)
  from missing bound absent show ?thesis by blast
qed

theorem virtual_binding_witness:
  "load_call
     \<lparr>directory = [(''app'', component [''config''] 0), graphviz_entry],
      virtualComponents = [''config''], topoSorted = [''config'', ''app'']\<rparr>
     even_succeeds first_rejected 2 ''app'' []
   = Some (Inl (MissingVirtualBinding ''config''), \<lparr>loaded = [], invoked = []\<rparr>) \<and>
   (\<exists>tbl. load_call
     \<lparr>directory = [(''app'', component [''config''] 0), graphviz_entry],
      virtualComponents = [''config''], topoSorted = [''config'', ''app'']\<rparr>
     even_succeeds first_rejected 2 ''app'' [(''config'', Num 7)]
     = load
        \<lparr>directory = [(''app'', component [''config''] 0), graphviz_entry],
         virtualComponents = [''config''], topoSorted = [''config'', ''app'']\<rparr>
        even_succeeds first_rejected 2 \<lparr>loaded = tbl, invoked = []\<rparr> ''app'' \<and>
     fst ` set tbl = {''config''} \<and> map_of tbl ''config'' = Some (Fulfilled (Num 7))) \<and>
   load_call
     \<lparr>directory = [(''app'', component [''config''] 0), graphviz_entry],
      virtualComponents = [''config''], topoSorted = [''config'', ''app'']\<rparr>
     even_succeeds first_rejected 2 ''app'' [(''config'', Num 7)]
   = Some (Inr (Promise (Fulfilled (Arr [Num 0, Obj [(''config'', Num 7)]]))),
       \<lparr>loaded = [(''config'', Fulfilled (Num 7)),
                  (''app'', Fulfilled (Arr [Num 0, Obj [(''config'', Num 7)]]))],
        invoked = [(''app'', Obj [(''config'', Num 7)])]\<rparr>)"
proof -
  let ?L = "\<lparr>directory = [(''app'', component [''config''] 0), graphviz_entry],
      virtualComponents = [''config''], topoSorted = [''config'', ''app'']\<rparr>"
  have 1: "''config'' \<in> set (virtualComponents ?L) \<and> ''config'' \<notin> fst ` set []
      \<and> inherited ''config'' = None"
    by (simp add: inherited_def prototype_methods_def)
  have 2: "(\<forall>v \<in> set (virtualComponents ?L). js_exists (member [(''config'', Num 7)] v)) \<and>
      \<not> array_like [(''config'', Num 7)] \<and> distinct (map fst [(''config'', Num 7)]) \<and>
      ''__proto__'' \<notin> fst ` set [(''config'', Num 7)]"
    by (simp add: member_def array_like_def is_length_def)
  have 3: "promise_resolve even_succeeds (Num 7) = Fulfilled (Num 7)"
    by (simp add: promise_resolve_def thenable_def)
  have 4: "load_call ?L even_succeeds first_rejected 2 ''app'' [(''config'', Num 7)]
    = Some (Inr (Promise (Fulfilled (Arr [Num 0, Obj [(''config'', Num 7)]]))),
       \<lparr>loaded = [(''config'', Fulfilled (Num 7)),
                  (''app'', Fulfilled (Arr [Num 0, Obj [(''config'', Num 7)]]))],
        invoked = [(''app'', Obj [(''config'', Num 7)])]\<rparr>)"
    by code_simp
  show ?thesis
    using virtual_binding [of "''config''" ?L "[]" even_succeeds first_rejected 2 "''app''"]
      virtual_binding [of "''config''" ?L "[(''config'', Num 7)]" even_succeeds first_rejected 2
        "''app''"]
      1 2 3 4
    by simp
qed

text \<open>
  C5 as stated fails: \<^verbatim>\<open>config\<close> appears as a key of the options
  \<^verbatim>\<open>{config: undefined}\<close>, and the call still fails with \<open>MissingVirtualBinding\<close>.
\<close>

theorem virtual_binding_counterexample:
  "''config'' \<in> fst ` set [(''config'', Undefined)] \<and>
   load_call
     \<lparr>directory = [(''app'', component [''config''] 0), graphviz_entry],
      virtualComponents = [''config''], topoSorted = [''config'', ''app'']\<rparr>
     even_succeeds first_rejected 2 ''app'' [(''config'', Undefined)]
   = Some (Inl (MissingVirtualBinding ''config''), \<lparr>loaded = [], invoked = []\<rparr>)"
  by code_simp






section \<open>The sorter finds an order exactly for acyclic graphs\<close>


lemma finite_edges: "finite (edges g)"
proof -
  have "edges g \<subseteq> (\<Union>(n, ds) \<in> set g. (\<lambda>d. (n, d)) ` set ds)"
    by (auto simp: edges_def)
  moreover have "finite (\<Union>(n, ds) \<in> set g. (\<lambda>d. (n, d)) ` set ds)"
    by auto
  ultimately show ?thesis by (rule finite_subset)
qed

lemma edgesI: "nd \<in> set g \<Longrightarrow> d \<in> set (snd nd) \<Longrightarrow> (fst nd, d) \<in> edges g"
  by (cases nd) (auto simp: edges_def)

lemma edges_mono: "set g \<subseteq> set g' \<Longrightarrow> edges g \<subseteq> edges g'"
  by (auto simp: edges_def)

lemma ready_iff: "ready pending nd \<longleftrightarrow> (\<forall>d \<in> set (snd nd). d \<notin> fst ` set pending)"
  by (simp add: ready_def list_all_iff)

lemma sort_nodes_blocked:
  assumes "B \<subseteq> set pending" and "B \<noteq> {}"
    and "\<forall>nd \<in> B. \<exists>d \<in> set (snd nd). d \<in> fst ` B"
  shows "sort_nodes pending emitted = Inl CyclicDependency"
  using assms
proof (induction pending emitted rule: sort_nodes.induct)
  case (1 pending emitted)
  from "1.prems" have ne: "pending \<noteq> []" by auto
  show ?case
  proof (cases "find (ready pending) pending")
    case None
    with ne show ?thesis by (subst sort_nodes.simps) simp
  next
    case (Some nd)
    then have rdy: "ready pending nd" and mem: "nd \<in> set pending"
      by (auto simp: find_Some_iff)
    have "nd \<notin> B"
    proof
      assume "nd \<in> B"
      with "1.prems"(3) obtain d where "d \<in> set (snd nd)" "d \<in> fst ` B" by blast
      with "1.prems"(1) rdy show False by (auto simp: ready_iff)
    qed
    have "B \<subseteq> set (remove1 nd pending)"
    proof
      fix x assume "x \<in> B"
      with \<open>nd \<notin> B\<close> "1.prems"(1) have "x \<noteq> nd" "x \<in> set pending" by auto
      then show "x \<in> set (remove1 nd pending)" by (simp add: in_set_remove1)
    qed
    with "1.IH" [OF ne Some] "1.prems"(2,3)
    have "sort_nodes (remove1 nd pending) (emitted @ [fst nd]) = Inl CyclicDependency"
      by blast
    with ne Some show ?thesis by (subst sort_nodes.simps) simp
  qed
qed

lemma cycle_blocked:
  assumes "(x, x) \<in> (edges g)\<^sup>+"
  shows "\<exists>B. B \<subseteq> set g \<and> B \<noteq> {} \<and> (\<forall>nd \<in> B. \<exists>d \<in> set (snd nd). d \<in> fst ` B)"
proof -
  define B where "B = {nd \<in> set g. \<exists>d \<in> set (snd nd). (d, fst nd) \<in> (edges g)\<^sup>*}"
  have on_cycle: "\<exists>nd \<in> B. fst nd = y" if "(y, y) \<in> (edges g)\<^sup>+" for y
  proof -
    from that obtain z where "(y, z) \<in> edges g" "(z, y) \<in> (edges g)\<^sup>*"
      by (meson tranclD)
    then show ?thesis by (force simp: B_def edges_def)
  qed
  have "B \<subseteq> set g" by (auto simp: B_def)
  moreover from on_cycle [OF assms] have "B \<noteq> {}" by auto
  moreover have "\<exists>d \<in> set (snd nd). d \<in> fst ` B" if "nd \<in> B" for nd
  proof -
    from that obtain d where d: "nd \<in> set g" "d \<in> set (snd nd)" "(d, fst nd) \<in> (edges g)\<^sup>*"
      by (auto simp: B_def)
    then have "(fst nd, d) \<in> edges g" by (simp add: edgesI)
    with d(3) have "(d, d) \<in> (edges g)\<^sup>+" by (rule rtrancl_into_trancl1)
    from on_cycle [OF this] d(2) show ?thesis by force
  qed
  ultimately show ?thesis by blast
qed

lemma sort_nodes_acyclic:
  assumes "acyclic (edges g)" and "set pending \<subseteq> set g"
  shows "\<exists>order. sort_nodes pending emitted = Inr order"
  using assms(2)
proof (induction pending emitted rule: sort_nodes.induct)
  case (1 pending emitted)
  show ?case
  proof (cases "pending = []")
    case True
    then show ?thesis by (subst sort_nodes.simps) simp
  next
    case ne: False
    have "wf ((edges g)\<inverse>)"
      using finite_edges assms(1) by (rule finite_acyclic_wf_converse)
    moreover from ne have "fst ` set pending \<noteq> {}" by simp
    ultimately obtain z where z: "z \<in> fst ` set pending"
      and min: "\<And>y. (y, z) \<in> (edges g)\<inverse> \<Longrightarrow> y \<notin> fst ` set pending"
      by (metis wfE_min all_not_in_conv)
    from z obtain nd where nd: "nd \<in> set pending" "fst nd = z" by auto
    have "ready pending nd"
      unfolding ready_iff
    proof
      fix d assume "d \<in> set (snd nd)"
      with nd "1.prems" have "(z, d) \<in> edges g" using edgesI [of nd g d] by auto
      then show "d \<notin> fst ` set pending" using min by blast
    qed
    with nd(1) have "find (ready pending) pending \<noteq> None"
      unfolding find_None_iff by blast
    then obtain nd' where Some: "find (ready pending) pending = Some nd'"
      by blast
    then have "nd' \<in> set pending" by (auto simp: find_Some_iff)
    with "1.prems" have "set (remove1 nd' pending) \<subseteq> set g"
      by (auto dest: notin_set_remove1)
    from "1.IH" [OF ne Some this] ne Some show ?thesis
      by (subst sort_nodes.simps) simp
  qed
qed

lemma TopoSort_sort_cases:
  "TopoSort_sort g = Inl CyclicDependency \<longleftrightarrow> \<not> acyclic (edges g)"
  "(\<exists>order. TopoSort_sort g = Inr order) \<longleftrightarrow> acyclic (edges g)"
proof -
  have a: "\<exists>order. TopoSort_sort g = Inr order" if "acyclic (edges g)"
    using sort_nodes_acyclic [OF that, of g "[]"] by (simp add: TopoSort_sort_def)
  have b: "TopoSort_sort g = Inl CyclicDependency" if "\<not> acyclic (edges g)"
  proof -
    from that obtain x where "(x, x) \<in> (edges g)\<^sup>+" by (auto simp: acyclic_def)
    from cycle_blocked [OF this] obtain B where "B \<subseteq> set g" "B \<noteq> {}"
      "\<forall>nd \<in> B. \<exists>d \<in> set (snd nd). d \<in> fst ` B" by blast
    then show ?thesis unfolding TopoSort_sort_def by (rule sort_nodes_blocked)
  qed
  from a b show "TopoSort_sort g = Inl CyclicDependency \<longleftrightarrow> \<not> acyclic (edges g)"
    by (cases "acyclic (edges g)") auto
  from a b show "(\<exists>order. TopoSort_sort g = Inr order) \<longleftrightarrow> acyclic (edges g)"
    by (cases "acyclic (edges g)") auto
qed



lemma has_cycle_acyclic: "has_cycle dir virt \<longleftrightarrow> \<not> acyclic (edges (dependency_graph dir virt))"
  by (simp add: has_cycle_def acyclic_def)

text \<open>
  C2 (as amended). For a directory that passes the checks made before the sort (no key
  is virtual, every entry is an accepted definition, every required name is found):
  construction fails with \<open>CyclicDependency\<close> exactly when the dependency graph has a
  cycle, a component that requires itself included; and it succeeds exactly when the
  graph has no cycle and \<^verbatim>\<open>graphviz\<close> is neither a key nor virtual.
\<close>

theorem cycle_detection:
  assumes "intersection (map fst dir) virt = []"
    and "check_components dir virt dir = Inr ()"
  shows "(loader dir virt = Inl CyclicDependency \<longleftrightarrow> has_cycle dir virt) \<and>
         ((\<exists>L. loader dir virt = Inr L) \<longleftrightarrow>
            \<not> has_cycle dir virt \<and> ''graphviz'' \<notin> fst ` set dir \<and> ''graphviz'' \<notin> set virt)"
proof -
  from checked_graph [OF assms(2)] obtain g where
    g: "add_components dir = Inr g" "g @ add_virtual virt = dependency_graph dir virt"
    by blast
  have tr: "truthy (member dir ''graphviz'') \<longleftrightarrow> ''graphviz'' \<in> fst ` set dir"
    using checked_member [OF assms(2), of "''graphviz''"] member_truthy_own [of "''graphviz''" dir]
    by (auto dest: accepted_truthy)
  have keys: "forEach_js dir = dir" using checked_keys [OF assms(2)] by simp
  show ?thesis
  proof (cases "has_cycle dir virt")
    case True
    then have "TopoSort_sort (dependency_graph dir virt) = Inl CyclicDependency"
      by (simp add: has_cycle_acyclic TopoSort_sort_cases(1))
    with True assms g keys show ?thesis by (simp add: loader_def)
  next
    case False
    then obtain order where "TopoSort_sort (dependency_graph dir virt) = Inr order"
      using TopoSort_sort_cases(2) [of "dependency_graph dir virt"]
      by (auto simp: has_cycle_acyclic)
    with False assms g tr keys show ?thesis by (auto simp: loader_def includes_js_def)
  qed
qed

theorem cycle_detection_witness:
  "loader [(''a'', component [''a''] 0)] [] = Inl CyclicDependency \<and>
   has_cycle [(''a'', component [''a''] 0)] [] \<and>
   loader [(''a'', component [''b''] 0), (''b'', component [''a''] 0)] [] = Inl CyclicDependency \<and>
   (\<exists>L. loader [(''a'', component [''b''] 0)] [''b''] = Inr L) \<and>
   \<not> has_cycle [(''a'', component [''b''] 0)] [''b'']"
proof -
  have 1: "intersection (map fst [(''a'', component [''a''] 0)]) [] = []"
    and 2: "check_components [(''a'', component [''a''] 0)] [] [(''a'', component [''a''] 0)]
              = Inr ()"
    by code_simp+
  have "(''a'', ''a'') \<in> edges (dependency_graph [(''a'', component [''a''] 0)] [])"
    by (simp add: edges_def dependency_graph_def add_virtual_def component_def required_def
        member_def)
  then have 3: "has_cycle [(''a'', component [''a''] 0)] []"
    unfolding has_cycle_def by blast
  have 4: "loader [(''a'', component [''b''] 0), (''b'', component [''a''] 0)] []
      = Inl CyclicDependency"
    by code_simp
  have 5: "intersection (map fst [(''a'', component [''b''] 0)]) [''b''] = []"
    and 6: "check_components [(''a'', component [''b''] 0)] [''b''] [(''a'', component [''b''] 0)]
              = Inr ()"
    by code_simp+
  have 7: "loader [(''a'', component [''b''] 0)] [''b''] =
      Inr \<lparr>directory = [(''a'', component [''b''] 0), graphviz_entry],
           virtualComponents = [''b''], topoSorted = [''b'', ''a'']\<rparr>"
    by code_simp
  show ?thesis
    using cycle_detection [OF 1 2] cycle_detection [OF 5 6] 3 4 7 by simp
qed

text \<open>
  C2 as stated fails: a directory without a cycle is refused for an undefined name, and a
  directory with a cycle is refused for an invalid entry, not for the cycle.
\<close>

theorem cycle_detection_counterexample:
  "\<not> has_cycle [(''a'', component [''b''] 0)] [] \<and>
   loader [(''a'', component [''b''] 0)] [] = Inl (UndefinedComponent ''b'') \<and>
   has_cycle [(''a'', component [''a''] 0), (''b'', Num 5)] [] \<and>
   loader [(''a'', component [''a''] 0), (''b'', Num 5)] [] = Inl (InvalidComponent ''b'' NotAnObject)"
proof -
  have "edges (dependency_graph [(''a'', component [''b''] 0)] []) = {(''a'', ''b'')}"
    by (auto simp: edges_def dependency_graph_def add_virtual_def component_def required_def
        member_def)
  then have 1: "\<not> has_cycle [(''a'', component [''b''] 0)] []"
    by (simp add: has_cycle_acyclic acyclic_insert) (simp add: acyclic_def)
  have "(''a'', ''a'') \<in> edges (dependency_graph [(''a'', component [''a''] 0), (''b'', Num 5)] [])"
    by (simp add: edges_def dependency_graph_def add_virtual_def component_def required_def
        member_def)
  then have 2: "has_cycle [(''a'', component [''a''] 0), (''b'', Num 5)] []"
    unfolding has_cycle_def by blast
  have 3: "loader [(''a'', component [''b''] 0)] [] = Inl (UndefinedComponent ''b'')"
    and 4: "loader [(''a'', component [''a''] 0), (''b'', Num 5)] []
        = Inl (InvalidComponent ''b'' NotAnObject)"
    by code_simp+
  from 1 2 3 4 show ?thesis by simp
qed


section \<open>A load call keeps the session in order\<close>







lemma extends_refl [simp]: "extends tbl tbl"
  by (simp add: extends_def)

lemma extends_trans: "extends a b \<Longrightarrow> extends b c \<Longrightarrow> extends a c"
  unfolding extends_def
  by (metis (no_types, lifting) domIff dom_map_of_conv_image_fst map_le_def map_le_trans)

lemma extends_keys: "extends a b \<Longrightarrow> fst ` set a \<subseteq> fst ` set b"
  unfolding extends_def by (metis dom_map_of_conv_image_fst map_le_implies_dom_le)

lemma extends_map_of: "extends a b \<Longrightarrow> x \<in> fst ` set a \<Longrightarrow> map_of b x = map_of a x"
  unfolding extends_def by (metis dom_map_of_conv_image_fst map_le_def)

lemma extends_loaded_at:
  assumes "extends a b" and "loaded_at a d = Some h"
  shows "loaded_at b d = Some h"
proof (cases "map_of a d")
  case (Some p)
  then have "d \<in> fst ` set a" by (metis domI dom_map_of_conv_image_fst)
  with assms Some show ?thesis by (simp add: loaded_at_def extends_map_of)
next
  case None
  with assms(2) have inh: "inherited d \<noteq> None" by (auto simp: loaded_at_def)
  from None have "d \<notin> fst ` set a" by (simp add: map_of_eq_None_iff)
  with inh assms(1) have "d \<notin> fst ` set b" by (auto simp: extends_def)
  then have "map_of b d = None" by (simp add: map_of_eq_None_iff)
  with None assms(2) show ?thesis by (simp add: loaded_at_def)
qed

lemma extends_obj_set:
  "key \<notin> fst ` set tbl \<Longrightarrow> inherited key = None \<Longrightarrow> extends tbl (obj_set tbl key p)"
  by (auto simp: extends_def map_le_def dom_map_of_conv_image_fst)

lemma extends_handles:
  assumes "extends a b" and "\<forall>d \<in> set names. loaded_at a d \<noteq> None"
  shows "handles b names = handles a names"
proof -
  have "loaded_at b d = loaded_at a d" if "d \<in> set names" for d
    using that assms extends_loaded_at by fastforce
  then show ?thesis by (simp add: handles_def)
qed

lemma all_then_calls:
  "snd (all_then L env race t d names hs) = [] \<or>
   (\<exists>ctx. snd (all_then L env race t d names hs) = [(t, ctx)])"
  by (auto simp: all_then_def Let_def split: sum.splits jsval.splits)




lemma requires_of_eq: "required (member (directory L) t) = Inr names \<Longrightarrow> requires_of L t = names"
  by (simp add: requires_of_def)

lemma list_all2_handles:
  "list_all2 (\<lambda>d h. loaded_at tbl d = Some h) names hs \<Longrightarrow> handles tbl names = hs"
  by (induction names hs rule: list_all2_induct) (auto simp: handles_def)

lemma list_all2_present:
  "list_all2 (\<lambda>d h. loaded_at tbl d = Some h) names hs \<Longrightarrow>
     \<forall>d \<in> set names. loaded_at tbl d \<noteq> None"
  by (induction names hs rule: list_all2_induct) auto

lemma all_then_calls_fst:
  "c \<in> set (snd (all_then L env race t d names hs)) \<Longrightarrow> fst c = t"
  using all_then_calls [of L env race t d names hs] by auto

lemma all_then_calls_distinct:
  "distinct (map fst (snd (all_then L env race t d names hs)))"
  using all_then_calls [of L env race t d names hs] by auto

lemma extends_present:
  assumes "extends a b" and "\<forall>d \<in> set names. loaded_at a d \<noteq> None"
  shows "\<forall>d \<in> set names. loaded_at b d \<noteq> None"
proof
  fix d assume "d \<in> set names"
  with assms(2) obtain h where "loaded_at a d = Some h" by auto
  with assms(1) have "loaded_at b d = Some h" by (rule extends_loaded_at)
  then show "loaded_at b d \<noteq> None" by simp
qed

lemma node_ok_extend:
  assumes "node_ok L env race s x"
    and ext: "extends (loaded s) tbl'"
    and same: "map_of tbl' x = map_of (loaded s) x"
    and inv: "{c \<in> set inv'. fst c = x} = {c \<in> set (invoked s). fst c = x}"
  shows "node_ok L env race \<lparr>loaded = tbl', invoked = inv'\<rparr> x"
proof -
  from assms(1) have present: "\<forall>d \<in> set (requires_of L x). loaded_at (loaded s) d \<noteq> None"
    by (simp add: node_ok_def)
  then have h: "handles tbl' (requires_of L x) = handles (loaded s) (requires_of L x)"
    using ext by (simp add: extends_handles)
  then have st: "settles L env race tbl' x = settles L env race (loaded s) x"
    by (simp add: settles_def)
  from ext present have "\<forall>d \<in> set (requires_of L x). loaded_at tbl' d \<noteq> None"
    by (rule extends_present)
  with assms(1) st same inv show ?thesis by (simp add: node_ok_def)
qed

lemma session_ok_new:
  assumes ok: "session_ok L env race tbl0 s"
    and fresh: "t \<notin> fst ` set (loaded s)" and inh: "inherited t = None"
    and req: "required (member (directory L) t) = Inr names"
    and hs: "list_all2 (\<lambda>d h. loaded_at (loaded s) d = Some h) names hs"
    and pc: "all_then L env race t (member (directory L) t) names hs = (p, calls)"
  shows "session_ok L env race tbl0
           \<lparr>loaded = obj_set (loaded s) t p, invoked = invoked s @ calls\<rparr>"
proof -
  let ?tbl = "obj_set (loaded s) t p"
  let ?s = "\<lparr>loaded = ?tbl, invoked = invoked s @ calls\<rparr>"
  have names: "requires_of L t = names" using req by (rule requires_of_eq)
  have ext: "extends (loaded s) ?tbl" using fresh inh by (rule extends_obj_set)
  have calls: "calls = snd (all_then L env race t (member (directory L) t) names hs)"
    using pc by simp
  have calls_t: "\<And>c. c \<in> set calls \<Longrightarrow> fst c = t"
    unfolding calls by (rule all_then_calls_fst)
  from ok have inv_keys: "\<forall>c \<in> set (invoked s). fst c \<in> fst ` set (loaded s) \<and> fst c \<notin> fst ` set tbl0"
    and dist: "distinct (map fst (invoked s))" and ext0: "extends tbl0 (loaded s)"
    and nodes: "\<forall>x. x \<in> fst ` set (loaded s) \<and> x \<notin> fst ` set tbl0 \<longrightarrow> node_ok L env race s x"
    by (simp_all add: session_ok_def)
  have no_t: "t \<notin> fst ` set (invoked s)" using inv_keys fresh by auto
  have t0: "t \<notin> fst ` set tbl0" using extends_keys [OF ext0] fresh by auto
  have 1: "distinct (map fst (invoked s @ calls))"
    using dist no_t calls_t all_then_calls_distinct [of L env race t "member (directory L) t" names hs]
    by (auto simp: calls)
  have 2: "extends tbl0 ?tbl" using ext0 ext by (rule extends_trans)
  have 3: "\<forall>c \<in> set (invoked s @ calls). fst c \<in> fst ` set ?tbl \<and> fst c \<notin> fst ` set tbl0"
    using inv_keys calls_t t0 by auto
  have present: "\<forall>d \<in> set names. loaded_at (loaded s) d \<noteq> None"
    using hs by (rule list_all2_present)
  have "handles ?tbl names = hs"
    using extends_handles [OF ext present] list_all2_handles [OF hs] by simp
  then have st: "settles L env race ?tbl t = (p, calls)"
    using pc names by (simp add: settles_def)
  have node_t: "node_ok L env race ?s t"
    unfolding node_ok_def
  proof (intro conjI)
    show "inherited t = None" by (rule inh)
    show "required (member (directory L) t) = Inr (requires_of L t)" using req names by simp
    show "\<forall>d \<in> set (requires_of L t). loaded_at (loaded ?s) d \<noteq> None"
      using extends_present [OF ext present] names by simp
    show "map_of (loaded ?s) t = Some (fst (settles L env race (loaded ?s) t))"
      using st by simp
    show "{c \<in> set (invoked ?s). fst c = t} = set (snd (settles L env race (loaded ?s) t))"
      using st no_t calls_t by auto
  qed
  have node_x: "node_ok L env race ?s x"
    if "x \<in> fst ` set (loaded s)" "x \<notin> fst ` set tbl0" for x
  proof -
    from that fresh have neq: "x \<noteq> t" by auto
    from nodes that have a: "node_ok L env race s x" by blast
    have b: "map_of ?tbl x = map_of (loaded s) x" using neq by simp
    have c: "{c \<in> set (invoked s @ calls). fst c = x} = {c \<in> set (invoked s). fst c = x}"
      using calls_t neq by auto
    show ?thesis using a ext b c by (rule node_ok_extend)
  qed
  have 4: "\<forall>x. x \<in> fst ` set ?tbl \<and> x \<notin> fst ` set tbl0 \<longrightarrow> node_ok L env race ?s x"
    using node_t node_x by auto
  from 1 2 3 4 show ?thesis by (simp add: session_ok_def)
qed




lemma step_refl: "session_ok L env race tbl0 s \<Longrightarrow> step L env race tbl0 s T s"
  by (simp add: step_def)

lemma step_trans:
  assumes "step L env race tbl0 s T s1" and "step L env race tbl0 s1 T' s2"
  shows "step L env race tbl0 s (T \<union> T') s2"
proof -
  have "extends (loaded s) (loaded s2)"
    using assms by (auto simp: step_def intro: extends_trans)
  moreover have "\<exists>t \<in> T \<union> T'. (t, x) \<in> (requires_rel L)\<^sup>*"
    if "x \<in> fst ` set (loaded s2)" "x \<notin> fst ` set (loaded s)" for x
  proof (cases "x \<in> fst ` set (loaded s1)")
    case True
    with that assms(1) show ?thesis unfolding step_def by blast
  next
    case False
    with that assms(2) show ?thesis unfolding step_def by blast
  qed
  ultimately show ?thesis using assms(2) by (simp add: step_def)
qed

lemma map_load_ok:
  assumes f: "\<And>s d r s'. session_ok L env race tbl0 s \<Longrightarrow> f s d = Some (r, s') \<Longrightarrow>
        step L env race tbl0 s {d} s' \<and> (\<forall>h. r = Inr h \<longrightarrow> loaded_at (loaded s') d = Some h)"
    and "session_ok L env race tbl0 s"
    and "map_load f s names = Some (r, s')"
  shows "step L env race tbl0 s (set names) s' \<and>
     (\<forall>hs. r = Inr hs \<longrightarrow> list_all2 (\<lambda>d h. loaded_at (loaded s') d = Some h) names hs)"
  using assms(2,3)
proof (induction names arbitrary: s r s')
  case Nil
  then show ?case by (auto simp: step_refl)
next
  case (Cons d names)
  from Cons.prems(2) obtain r1 s1 where f1: "f s d = Some (r1, s1)"
    by (cases "f s d") auto
  from f [OF Cons.prems(1) f1] have st1: "step L env race tbl0 s {d} s1"
    and h1: "\<forall>h. r1 = Inr h \<longrightarrow> loaded_at (loaded s1) d = Some h" by simp_all
  show ?case
  proof (cases r1)
    case (Inl e)
    with Cons.prems(2) f1 have "r = Inl e" "s' = s1" by simp_all
    moreover have "step L env race tbl0 s (set (d # names)) s1"
      using step_trans [OF st1 step_refl, of "set names"] st1 by (simp add: step_def)
    ultimately show ?thesis by simp
  next
    case (Inr h)
    with Cons.prems(2) f1 obtain r2 where m2: "map_load f s1 names = Some (r2, s')"
      by (cases "map_load f s1 names") (auto split: sum.splits)
    from st1 have ok1: "session_ok L env race tbl0 s1" by (simp add: step_def)
    from Cons.IH [OF ok1 m2] have st2: "step L env race tbl0 s1 (set names) s'"
      and h2: "\<forall>hs. r2 = Inr hs \<longrightarrow>
          list_all2 (\<lambda>d h. loaded_at (loaded s') d = Some h) names hs" by simp_all
    from step_trans [OF st1 st2] have st: "step L env race tbl0 s (set (d # names)) s'"
      by simp
    have "list_all2 (\<lambda>d h. loaded_at (loaded s') d = Some h) (d # names) hs"
      if "r = Inr hs" for hs
    proof -
      from that Inr Cons.prems(2) f1 m2 obtain hs' where hs': "r2 = Inr hs'" "hs = h # hs'"
        by (auto split: sum.splits)
      from h1 Inr have "loaded_at (loaded s1) d = Some h" by simp
      moreover from st2 have "extends (loaded s1) (loaded s')" by (simp add: step_def)
      ultimately have "loaded_at (loaded s') d = Some h" by (rule extends_loaded_at [rotated])
      with h2 hs' show ?thesis by simp
    qed
    with st show ?thesis by blast
  qed
qed





lemma load_ok:
  assumes acyc: "acyclic (requires_rel L)"
    and "session_ok L env race tbl0 s"
    and "load L env race n s t = Some (r, s')"
  shows "step L env race tbl0 s {t} s' \<and> (\<forall>h. r = Inr h \<longrightarrow> loaded_at (loaded s') t = Some h)"
  using assms(2,3)
proof (induction n arbitrary: s t r s')
  case 0
  then show ?case by simp
next
  case (Suc n)
  show ?case
  proof (cases "loaded_at (loaded s) t")
    case (Some h)
    with Suc.prems show ?thesis by (auto simp: step_refl)
  next
    case None
    then have fresh: "t \<notin> fst ` set (loaded s)" and inh: "inherited t = None"
      by (auto simp: loaded_at_None)
    show ?thesis
    proof (cases "required (member (directory L) t)")
      case (Inl e)
      with None Suc.prems show ?thesis by (auto simp: step_refl)
    next
      case (Inr names)
      then have names: "requires_of L t = names" by (rule requires_of_eq)
      from None Inr Suc.prems(2) obtain r1 s1 where
        m: "map_load (load L env race n) s names = Some (r1, s1)"
        by (cases "map_load (load L env race n) s names") auto
      have "step L env race tbl0 s (set names) s1 \<and>
          (\<forall>hs. r1 = Inr hs \<longrightarrow>
            list_all2 (\<lambda>d h. loaded_at (loaded s1) d = Some h) names hs)"
      proof (rule map_load_ok)
        show "map_load (load L env race n) s names = Some (r1, s1)" by (rule m)
        show "session_ok L env race tbl0 s" by (rule Suc.prems(1))
        fix sa d ra sa'
        assume "session_ok L env race tbl0 sa" "load L env race n sa d = Some (ra, sa')"
        then show "step L env race tbl0 sa {d} sa' \<and>
            (\<forall>h. ra = Inr h \<longrightarrow> loaded_at (loaded sa') d = Some h)"
          by (rule Suc.IH)
      qed
      then have st1: "step L env race tbl0 s (set names) s1"
        and hs1: "\<forall>hs. r1 = Inr hs \<longrightarrow>
            list_all2 (\<lambda>d h. loaded_at (loaded s1) d = Some h) names hs"
        by simp_all
      have reach: "\<exists>u \<in> {t}. (u, x) \<in> (requires_rel L)\<^sup>*"
        if "\<exists>d \<in> set names. (d, x) \<in> (requires_rel L)\<^sup>*" for x
      proof -
        from that obtain d where d: "d \<in> set names" "(d, x) \<in> (requires_rel L)\<^sup>*" by blast
        from d(1) names have "(t, d) \<in> requires_rel L" by (simp add: requires_rel_def)
        with d(2) have "(t, x) \<in> (requires_rel L)\<^sup>*"
          by (rule converse_rtrancl_into_rtrancl [rotated])
        then show ?thesis by simp
      qed
      have st1': "step L env race tbl0 s {t} s1"
        unfolding step_def
      proof (intro conjI allI impI)
        show "session_ok L env race tbl0 s1" using st1 by (simp add: step_def)
        show "extends (loaded s) (loaded s1)" using st1 by (simp add: step_def)
        fix x assume "x \<in> fst ` set (loaded s1) \<and> x \<notin> fst ` set (loaded s)"
        with st1 have "\<exists>d \<in> set names. (d, x) \<in> (requires_rel L)\<^sup>*"
          unfolding step_def by blast
        then show "\<exists>u \<in> {t}. (u, x) \<in> (requires_rel L)\<^sup>*" by (rule reach)
      qed
      show ?thesis
      proof (cases r1)
        case (Inl e)
        with None Inr m Suc.prems(2) have "r = Inl e" "s' = s1" by simp_all
        with st1' show ?thesis by simp
      next
        case r1: (Inr hs)
        obtain p calls where pc:
          "all_then L env race t (member (directory L) t) names hs = (p, calls)"
          by (cases "all_then L env race t (member (directory L) t) names hs")
        with None Inr m r1 Suc.prems(2) have r: "r = Inr (Promise p)"
          and s': "s' = \<lparr>loaded = obj_set (loaded s1) t p, invoked = invoked s1 @ calls\<rparr>"
          by (simp_all add: assign_own [OF inh])
        from st1 have ok1: "session_ok L env race tbl0 s1" by (simp add: step_def)
        have fresh1: "t \<notin> fst ` set (loaded s1)"
        proof
          assume in1: "t \<in> fst ` set (loaded s1)"
          with fresh st1 obtain d where "d \<in> set names" "(d, t) \<in> (requires_rel L)\<^sup>*"
            unfolding step_def by blast
          moreover from this(1) names have "(t, d) \<in> requires_rel L"
            by (simp add: requires_rel_def)
          ultimately have "(t, t) \<in> (requires_rel L)\<^sup>+"
            using rtrancl_into_trancl2 [of t d "requires_rel L" t] by simp
          with acyc show False by (simp add: acyclic_def)
        qed
        from hs1 r1 have hs: "list_all2 (\<lambda>d h. loaded_at (loaded s1) d = Some h) names hs"
          by simp
        from session_ok_new [OF ok1 fresh1 inh Inr hs pc]
        have ok': "session_ok L env race tbl0 s'" by (simp add: s')
        have ext1: "extends (loaded s1) (loaded s')"
          using extends_obj_set [OF fresh1 inh] by (simp add: s')
        have "step L env race tbl0 s1 {t} s'"
          using ok' ext1 by (auto simp: step_def s')
        from step_trans [OF st1' this] have "step L env race tbl0 s {t} s'" by simp
        moreover have "loaded_at (loaded s') t = Some (Promise p)"
          by (simp add: s' loaded_at_def)
        ultimately show ?thesis using r by simp
      qed
    qed
  qed
qed


section \<open>Termination, and what a finished session says\<close>


lemma inherited_shape: "inherited t = Some v \<Longrightarrow> v = Obj [] \<or> (\<exists>f. v = Fun f)"
  by (auto simp: inherited_def split: if_splits)

lemma required_inherited: "inherited t = Some v \<Longrightarrow> required v = Inr []"
  by (auto simp: required_def member_def dest!: inherited_shape)

lemma requires_of_absent: "map_of (directory L) t = None \<Longrightarrow> requires_of L t = []"
  by (cases "inherited t")
     (auto simp: requires_of_def member_def required_def dest: required_inherited)

lemma directory_lookup:
  assumes "loader dir virt = Inr L"
  shows "map_of (directory L) = (map_of dir)(''graphviz'' \<mapsto> Obj [(''setup'', Fun GraphvizSetup)])"
  using loader_result(5) [OF assms] by simp

lemma loader_requires_rel:
  assumes "loader dir virt = Inr L"
  shows "requires_rel L \<subseteq> edges (dependency_graph dir virt)"
proof
  fix e assume "e \<in> requires_rel L"
  then obtain t d where e: "e = (t, d)" and d: "d \<in> set (requires_of L t)"
    by (auto simp: requires_rel_def)
  from d requires_of_absent obtain v where v: "map_of (directory L) t = Some v"
    by (cases "map_of (directory L) t") auto
  have "t \<noteq> ''graphviz''"
  proof
    assume "t = ''graphviz''"
    with v directory_lookup [OF assms] have "v = Obj [(''setup'', Fun GraphvizSetup)]" by simp
    with v d show False by (simp add: requires_of_def member_def required_def)
  qed
  with v directory_lookup [OF assms] have dv: "map_of dir t = Some v" by simp
  then have mem: "(t, v) \<in> set dir" by (rule map_of_SomeD)
  from d v have "d \<in> set (case required v of Inr deps \<Rightarrow> deps | Inl e \<Rightarrow> [])"
    by (simp add: requires_of_def member_def)
  with mem have "(t, d) \<in> edges (dependency_graph dir virt)"
    by (force simp: edges_def dependency_graph_def)
  with e show "e \<in> edges (dependency_graph dir virt)" by simp
qed

lemma loader_acyclic:
  assumes "loader dir virt = Inr L" and "\<not> array_like dir"
  shows "acyclic (requires_rel L)" and "wf ((requires_rel L)\<inverse>)"
proof -
  from loader_ok(3) [OF assms] have ac: "acyclic (edges (dependency_graph dir virt))"
    using TopoSort_sort_cases(2) by blast
  from ac loader_requires_rel [OF assms(1)] show "acyclic (requires_rel L)"
    by (rule acyclic_subset)
  from finite_edges ac have "wf ((edges (dependency_graph dir virt))\<inverse>)"
    by (rule finite_acyclic_wf_converse)
  moreover from loader_requires_rel [OF assms(1)]
  have "(requires_rel L)\<inverse> \<subseteq> (edges (dependency_graph dir virt))\<inverse>" by auto
  ultimately show "wf ((requires_rel L)\<inverse>)" by (rule wf_subset)
qed



lemma map_load_total:
  "(\<And>s d. d \<in> set names \<Longrightarrow> f s d \<noteq> None) \<Longrightarrow> map_load f s names \<noteq> None"
proof (induction names arbitrary: s)
  case Nil
  then show ?case by simp
next
  case (Cons d names)
  from Cons.prems [of d s] obtain r1 s1 where f1: "f s d = Some (r1, s1)" by auto
  show ?case
  proof (cases r1)
    case (Inl e)
    with f1 show ?thesis by simp
  next
    case (Inr h)
    have "map_load f s1 names \<noteq> None" using Cons.prems by (intro Cons.IH) auto
    with f1 Inr show ?thesis by (auto split: sum.splits)
  qed
qed

lemma uniform_bound:
  "(\<And>d. d \<in> set names \<Longrightarrow> \<exists>N. \<forall>n \<ge> N. P d n) \<Longrightarrow> \<exists>N::nat. \<forall>d \<in> set names. \<forall>n \<ge> N. P d n"
proof (induction names)
  case Nil
  then show ?case by simp
next
  case (Cons d names)
  from Cons.prems [of d] obtain N1 where N1: "\<forall>n \<ge> N1. P d n" by auto
  from Cons.IH Cons.prems obtain N2 where N2: "\<forall>d \<in> set names. \<forall>n \<ge> N2. P d n" by auto
  from N1 N2 have "\<forall>x \<in> set (d # names). \<forall>n \<ge> max N1 N2. P x n" by auto
  then show ?case by blast
qed

lemma load_total:
  assumes "wf ((requires_rel L)\<inverse>)"
  shows "\<exists>N. \<forall>n \<ge> N. \<forall>s. load L env race n s t \<noteq> None"
  using assms
proof (induction t rule: wf_induct_rule)
  case (less t)
  have "\<exists>N. \<forall>n \<ge> N. \<forall>s. load L env race n s d \<noteq> None" if "d \<in> set (requires_of L t)" for d
    using that by (intro less.IH) (simp add: requires_rel_def)
  from uniform_bound [where P = "\<lambda>d n. \<forall>s. load L env race n s d \<noteq> None", OF this]
  obtain N where N: "\<forall>d \<in> set (requires_of L t). \<forall>n \<ge> N. \<forall>s. load L env race n s d \<noteq> None"
    by blast
  have "load L env race n s t \<noteq> None" if "n \<ge> Suc N" for n s
  proof -
    from that obtain m where n: "n = Suc m" and m: "m \<ge> N" by (cases n) auto
    show ?thesis
    proof (cases "loaded_at (loaded s) t")
      case (Some h)
      then show ?thesis by (simp add: n)
    next
      case None
      show ?thesis
      proof (cases "required (member (directory L) t)")
        case (Inl e)
        with None show ?thesis by (simp add: n)
      next
        case (Inr names)
        then have "requires_of L t = names" by (simp add: requires_of_def)
        with N m have "map_load (load L env race m) s names \<noteq> None"
          by (intro map_load_total) auto
        with None Inr show ?thesis
          by (auto simp: n split: sum.splits prod.splits)
      qed
    qed
  qed
  then show ?case by blast
qed

lemma session_ok_initial: "session_ok L env race tbl0 \<lparr>loaded = tbl0, invoked = []\<rparr>"
  by (simp add: session_ok_def)

lemma load_call_total:
  assumes "loader dir virt = Inr L" and "\<not> array_like dir"
  shows "\<exists>N. \<forall>n \<ge> N. load_call L env race n target options \<noteq> None"
proof -
  from load_total [OF loader_acyclic(2) [OF assms]] obtain N where
    "\<forall>n \<ge> N. \<forall>s. load L env race n s target \<noteq> None" by blast
  then have "\<forall>n \<ge> N. load_call L env race n target options \<noteq> None"
    by (auto simp: load_call_def split: sum.splits)
  then show ?thesis ..
qed

lemma load_call_cases:
  assumes "loader dir virt = Inr L" and "\<not> array_like dir"
    and "load_call L env race n target options = Some (r, s)"
  obtains (missing) v where "r = Inl (MissingVirtualBinding v)"
      and "s = \<lparr>loaded = [], invoked = []\<rparr>"
  | (resolving) "session_ok L env race (seed env [] (forEach_js options)) s"
      and "\<forall>h. r = Inr h \<longrightarrow> loaded_at (loaded s) target = Some h"
proof (cases "check_virtual options (virtualComponents L)")
  case (Inl e)
  with assms(3) have "s = \<lparr>loaded = [], invoked = []\<rparr>" "r = Inl e"
    by (simp_all add: load_call_def)
  with check_virtual_error [OF Inl] missing show ?thesis by blast
next
  case (Inr u)
  with assms(3)
  have "load L env race n \<lparr>loaded = seed env [] (forEach_js options), invoked = []\<rparr> target
      = Some (r, s)"
    by (simp add: load_call_def)
  from load_ok [OF loader_acyclic(1) [OF assms(1,2)] session_ok_initial this] resolving
  show ?thesis by (simp add: step_def)
qed



lemma build_ctx_lookup:
  "map_of (build_ctx ctx names (map g names)) k =
     (if k \<in> set names \<and> k \<noteq> ''__proto__'' then Some (g k) else map_of ctx k)"
  by (induction names arbitrary: ctx) (auto simp: map_of_assign)

lemma handles_resolved:
  "map resolved (handles tbl names) = map (\<lambda>d. resolved (the (loaded_at tbl d))) names"
  by (simp add: handles_def)

lemma all_then_invoked:
  assumes "c \<in> set (snd (all_then L env race t d names hs))"
  shows "c = (t, Obj (build_ctx [] names (map resolved hs)))"
    and "List.map_filter rejection hs = []"
    and "\<exists>f. field d ''setup'' = Inr (Fun f)
           \<and> fst (all_then L env race t d names hs) = call_setup L env f (snd c)"
  using assms
  by (auto simp: all_then_def Let_def split: sum.splits jsval.splits if_splits)





lemma loaded_at_Promise:
  "loaded_at tbl d = Some (Promise p) \<longleftrightarrow> map_of tbl d = Some p"
  by (auto simp: loaded_at_def split: option.splits)


lemma session_option:
  assumes "session_ok L env race tbl0 s" and "k \<in> fst ` set tbl0"
  shows "map_of (loaded s) k = map_of tbl0 k"
proof -
  from assms(1) have "extends tbl0 (loaded s)" by (simp add: session_ok_def)
  then show ?thesis using assms(2) by (rule extends_map_of)
qed

lemma session_proto:
  assumes "session_ok L env race tbl0 s" and "''__proto__'' \<notin> fst ` set tbl0"
  shows "map_of (loaded s) ''__proto__'' = None"
proof -
  from assms(1) have "extends tbl0 (loaded s)" by (simp add: session_ok_def)
  then have "\<forall>x. x \<in> fst ` set (loaded s) \<and> x \<notin> fst ` set tbl0 \<longrightarrow> inherited x = None"
    by (simp add: extends_def)
  from this [rule_format, of "''__proto__''"] assms(2)
  have "''__proto__'' \<notin> fst ` set (loaded s)" by auto
  then show ?thesis by (simp add: map_of_None_iff)
qed

lemma invoked_ctx:
  assumes "session_ok L env race tbl0 s" and "(t, ctx) \<in> set (invoked s)"
  shows "ctx = Obj (build_ctx [] (requires_of L t)
                     (map (\<lambda>d. resolved (the (loaded_at (loaded s) d))) (requires_of L t)))"
proof -
  from assms have "fst (t, ctx) \<in> fst ` set (loaded s) \<and> fst (t, ctx) \<notin> fst ` set tbl0"
    unfolding session_ok_def by blast
  then have "t \<in> fst ` set (loaded s)" "t \<notin> fst ` set tbl0"
    by simp_all
  with assms(1) have "node_ok L env race s t" by (simp add: session_ok_def)
  then have "{c \<in> set (invoked s). fst c = t} = set (snd (settles L env race (loaded s) t))"
    by (simp add: node_ok_def)
  moreover from assms(2) have "(t, ctx) \<in> {c \<in> set (invoked s). fst c = t}" by simp
  ultimately have "(t, ctx) \<in> set (snd (settles L env race (loaded s) t))" by simp
  from all_then_invoked(1) [OF this [unfolded settles_def]] show ?thesis
    by (simp add: handles_resolved)
qed

lemma invoked_field:
  assumes "session_ok L env race tbl0 s" and "''__proto__'' \<notin> fst ` set tbl0"
    and "(t, ctx) \<in> set (invoked s)" and "k \<in> set (requires_of L t)"
  shows "field ctx k = Inr (resolved (the (loaded_at (loaded s) k)))"
proof (cases "k = ''__proto__''")
  case True
  with session_proto [OF assms(1,2)] show ?thesis
    by (simp add: invoked_ctx [OF assms(1,3)] member_def build_ctx_lookup loaded_at_def)
next
  case False
  with assms(4) show ?thesis
    by (simp add: invoked_ctx [OF assms(1,3)] member_def build_ctx_lookup)
qed







section \<open>At most one construction\<close>






lemma array_index_letter [simp]:
  "digit_value c = None \<Longrightarrow> array_index (c # cs) = None"
  by (simp add: array_index_def)

lemma diamond_loader:
  "loader (diamond a b c d) [] = Inr (loader_of (diamond a b c d) [''D'', ''B'', ''C'', ''A''])"
  by (simp add: loader_def diamond_def component_def intersection_def validateComponent_def
      required_def member_def inherited_def prototype_methods_def includes_js_def
      TopoSort_sort_def sort_nodes.simps add_virtual_def ready_def graphviz_entry_def
      loader_of_def forEach_js_def array_like_def is_length_def obj_set_def digit_value_def)

lemma diamond_run:
  "\<exists>r s. load_call (loader_of (diamond a b c d) [''D'', ''B'', ''C'', ''A'']) env race
            (Suc (Suc (Suc m))) ''A'' [] = Some (r, s)
     \<and> length (filter (\<lambda>c. fst c = ''D'') (invoked s)) = 1
     \<and> (\<forall>ctx. (''B'', ctx) \<in> set (invoked s) \<or> (''C'', ctx) \<in> set (invoked s) \<longrightarrow>
           (\<exists>v. env (UserFun d) (Obj []) = Inr v \<and> ctx = Obj [(''D'', v)]))
     \<and> ((\<exists>v. env (UserFun d) (Obj []) = Inr v) \<longrightarrow>
           ''B'' \<in> fst ` set (invoked s) \<and> ''C'' \<in> fst ` set (invoked s))"
  by (cases "env (UserFun d) (Obj [])")
     (auto simp: load_call_def diamond_def component_def required_def member_def inherited_def
      prototype_methods_def loaded_at_def all_then_def call_setup_def List.map_filter_def
      graphviz_entry_def loader_of_def Let_def forEach_js_def array_like_def is_length_def
      assign_def obj_set_def digit_value_def split: sum.splits)

text \<open>
  C1. Where construction has succeeded for a valid directory, one that is iterated by
  its keys, every load call returns (for every bound on the recursion from some bound
  on), and in the session it returns no component name has its setup function
  invoked twice; every setup function invoked receives, under each
  name it requires, the value of the one entry that the table holds for that name. In
  the diamond, for every behaviour of the setup functions and every timing, loading
  \<^verbatim>\<open>A\<close> invokes the setup function of \<^verbatim>\<open>D\<close> exactly once, and the contexts that \<^verbatim>\<open>B\<close>
  and \<^verbatim>\<open>C\<close> are invoked with both hold, under \<^verbatim>\<open>D\<close>, the value that this one
  invocation returned; both are invoked when it returns.
\<close>

theorem setup_at_most_once:
  "(loader dir virt = Inr L \<and> \<not> array_like dir \<longrightarrow>
      (\<exists>N. \<forall>n \<ge> N. load_call L env race n target options \<noteq> None) \<and>
      (\<forall>n r s. load_call L env race n target options = Some (r, s) \<longrightarrow>
         distinct (map fst (invoked s)) \<and>
         (\<forall>t ctx k. (t, ctx) \<in> set (invoked s) \<and> k \<in> set (requires_of L t) \<longrightarrow>
            field ctx k = Inr (resolved (the (loaded_at (loaded s) k)))))) \<and>
   loader (diamond a b c d) [] = Inr (loader_of (diamond a b c d) [''D'', ''B'', ''C'', ''A'']) \<and>
   (\<exists>r s. load_call (loader_of (diamond a b c d) [''D'', ''B'', ''C'', ''A'']) env race
            (Suc (Suc (Suc m))) ''A'' [] = Some (r, s)
     \<and> length (filter (\<lambda>c. fst c = ''D'') (invoked s)) = 1
     \<and> (\<forall>ctx. (''B'', ctx) \<in> set (invoked s) \<or> (''C'', ctx) \<in> set (invoked s) \<longrightarrow>
           (\<exists>v. env (UserFun d) (Obj []) = Inr v \<and> ctx = Obj [(''D'', v)]))
     \<and> ((\<exists>v. env (UserFun d) (Obj []) = Inr v) \<longrightarrow>
           ''B'' \<in> fst ` set (invoked s) \<and> ''C'' \<in> fst ` set (invoked s)))"
proof (intro conjI impI)
  assume "loader dir virt = Inr L \<and> \<not> array_like dir"
  then have ld: "loader dir virt = Inr L" and keys: "\<not> array_like dir" by simp_all
  show "\<exists>N. \<forall>n \<ge> N. load_call L env race n target options \<noteq> None"
    using ld keys by (rule load_call_total)
  show "\<forall>n r s. load_call L env race n target options = Some (r, s) \<longrightarrow>
         distinct (map fst (invoked s)) \<and>
         (\<forall>t ctx k. (t, ctx) \<in> set (invoked s) \<and> k \<in> set (requires_of L t) \<longrightarrow>
            field ctx k = Inr (resolved (the (loaded_at (loaded s) k))))"
  proof (intro allI impI)
    fix n r s
    assume run: "load_call L env race n target options = Some (r, s)"
    from ld keys run show "distinct (map fst (invoked s)) \<and>
         (\<forall>t ctx k. (t, ctx) \<in> set (invoked s) \<and> k \<in> set (requires_of L t) \<longrightarrow>
            field ctx k = Inr (resolved (the (loaded_at (loaded s) k))))"
    proof (cases rule: load_call_cases)
      case (missing v)
      then show ?thesis by simp
    next
      case resolving
      have proto: "''__proto__'' \<notin> fst ` set (seed env [] (forEach_js options))"
        by (simp add: seed_keys)
      from resolving(1) have "distinct (map fst (invoked s))" by (simp add: session_ok_def)
      moreover have "field ctx k = Inr (resolved (the (loaded_at (loaded s) k)))"
        if "(t, ctx) \<in> set (invoked s)" "k \<in> set (requires_of L t)" for t ctx k
        using resolving(1) proto that by (rule invoked_field)
      ultimately show ?thesis by blast
    qed
  qed
next
  show "loader (diamond a b c d) [] = Inr (loader_of (diamond a b c d) [''D'', ''B'', ''C'', ''A''])"
    by (rule diamond_loader)
  show "\<exists>r s. load_call (loader_of (diamond a b c d) [''D'', ''B'', ''C'', ''A'']) env race
            (Suc (Suc (Suc m))) ''A'' [] = Some (r, s)
     \<and> length (filter (\<lambda>c. fst c = ''D'') (invoked s)) = 1
     \<and> (\<forall>ctx. (''B'', ctx) \<in> set (invoked s) \<or> (''C'', ctx) \<in> set (invoked s) \<longrightarrow>
           (\<exists>v. env (UserFun d) (Obj []) = Inr v \<and> ctx = Obj [(''D'', v)]))
     \<and> ((\<exists>v. env (UserFun d) (Obj []) = Inr v) \<longrightarrow>
           ''B'' \<in> fst ` set (invoked s) \<and> ''C'' \<in> fst ` set (invoked s))"
    by (rule diamond_run)
qed

theorem setup_at_most_once_witness:
  "\<exists>r s. load_call (loader_of (diamond 0 2 4 6) [''D'', ''B'', ''C'', ''A'']) even_succeeds
            first_rejected 3 ''A'' [] = Some (r, s)
     \<and> map fst (invoked s) = [''D'', ''B'', ''C'', ''A'']
     \<and> distinct (map fst (invoked s))"
proof -
  let ?L = "loader_of (diamond 0 2 4 6) [''D'', ''B'', ''C'', ''A'']"
  note inst = setup_at_most_once [of "diamond 0 2 4 6" "[]" ?L even_succeeds first_rejected
      "''A''" "[]" 0 2 4 6 0]
  have ld: "loader (diamond 0 2 4 6) [] = Inr ?L" using inst by simp
  have keys: "\<not> array_like (diamond 0 2 4 6)"
    by (simp add: array_like_def diamond_def member_def is_length_def)
  have names: "map fst (invoked (snd (the (load_call ?L even_succeeds first_rejected 3 ''A'' []))))
      = [''D'', ''B'', ''C'', ''A'']"
    by code_simp
  have "load_call ?L even_succeeds first_rejected 3 ''A'' [] \<noteq> None"
    by code_simp
  then obtain r s where run: "load_call ?L even_succeeds first_rejected 3 ''A'' [] = Some (r, s)"
    by auto
  with inst ld keys have "distinct (map fst (invoked s))" by blast
  with run names show ?thesis by simp
qed




section \<open>Options pre-empt construction\<close>

text \<open>
  Where construction has succeeded for a directory iterated by its keys, and the
  options, iterated by their keys too, hold the value \<open>v\<close> under a key \<open>k\<close> other
  than \<^verbatim>\<open>__proto__\<close> (an object has each key once): every load call returns, and in
  the session it returns no setup function is invoked for \<open>k\<close>, the table holds
  under \<open>k\<close> the promise \<^verbatim>\<open>Promise.resolve(v)\<close> unless the call failed for a missing
  virtual binding, and where \<open>v\<close> is no promise every setup function invoked for a
  component that requires \<open>k\<close> receives exactly \<open>v\<close> under \<open>k\<close>.
\<close>

lemma options_preempt_setup:
  assumes "loader dir virt = Inr L" and "\<not> array_like dir"
    and "\<not> array_like options" and "distinct (map fst options)"
    and "(k, v) \<in> set options" and "k \<noteq> ''__proto__''"
  shows "(\<exists>N. \<forall>n \<ge> N. load_call L env race n target options \<noteq> None) \<and>
    (\<forall>n r s. load_call L env race n target options = Some (r, s) \<longrightarrow>
       k \<notin> fst ` set (invoked s) \<and>
       ((\<exists>w. r = Inl (MissingVirtualBinding w)) \<or>
          map_of (loaded s) k = Some (promise_resolve env v)) \<and>
       (thenable v = None \<longrightarrow>
          (\<forall>t ctx. (t, ctx) \<in> set (invoked s) \<and> k \<in> set (requires_of L t) \<longrightarrow>
             field ctx k = Inr v)))"
proof (intro conjI allI impI)
  show "\<exists>N. \<forall>n \<ge> N. load_call L env race n target options \<noteq> None"
    using assms(1,2) by (rule load_call_total)
next
  fix n r s
  assume run: "load_call L env race n target options = Some (r, s)"
  let ?tbl0 = "seed env [] (forEach_js options)"
  have key: "k \<in> fst ` set ?tbl0" using assms(3,5,6) by (force simp: seed_keys)
  have entry0: "map_of ?tbl0 k = Some (promise_resolve env v)"
    using assms(3) seed_present [OF assms(4,5,6)] by simp
  have proto: "''__proto__'' \<notin> fst ` set ?tbl0" by (simp add: seed_keys)
  have facts: "k \<notin> fst ` set (invoked s) \<and>
       ((\<exists>w. r = Inl (MissingVirtualBinding w)) \<or>
          map_of (loaded s) k = Some (promise_resolve env v)) \<and>
       (thenable v = None \<longrightarrow>
          (\<forall>t ctx. (t, ctx) \<in> set (invoked s) \<and> k \<in> set (requires_of L t) \<longrightarrow>
             field ctx k = Inr v))"
    using assms(1,2) run
  proof (cases rule: load_call_cases)
    case (missing w)
    then show ?thesis by simp
  next
    case resolving
    have entry: "map_of (loaded s) k = Some (promise_resolve env v)"
      using session_option [OF resolving(1) key] entry0 by simp
    have "fst c \<noteq> k" if "c \<in> set (invoked s)" for c
      using resolving(1) that key unfolding session_ok_def by auto
    then have 1: "k \<notin> fst ` set (invoked s)" by auto
    have 2: "field ctx k = Inr v"
      if "thenable v = None" "(t, ctx) \<in> set (invoked s)" "k \<in> set (requires_of L t)"
      for t ctx
    proof -
      from entry that(1) have "loaded_at (loaded s) k = Some (Promise (Fulfilled v))"
        by (simp add: loaded_at_Promise promise_resolve_plain)
      with invoked_field [OF resolving(1) proto that(2,3)] show ?thesis by simp
    qed
    from 1 2 entry show ?thesis by blast
  qed
  from facts show "k \<notin> fst ` set (invoked s)" by blast
  from facts show "(\<exists>w. r = Inl (MissingVirtualBinding w)) \<or>
      map_of (loaded s) k = Some (promise_resolve env v)" by blast
  fix t ctx
  assume "thenable v = None" "(t, ctx) \<in> set (invoked s) \<and> k \<in> set (requires_of L t)"
  with facts show "field ctx k = Inr v" by blast
qed

text \<open>
  C6. A key of the options that names a component is to pre-empt the setup function
  of that component, and its dependents are to receive the supplied value. The table
  is seeded by \<^verbatim>\<open>_.forEach(options, ...)\<close>, which takes an object whose \<^verbatim>\<open>length\<close> is
  a non-negative integer for an array and visits its indices, not its keys. In a
  directory with the components \<^verbatim>\<open>target\<close>, which requires \<^verbatim>\<open>db\<close>, \<^verbatim>\<open>db\<close> and
  \<^verbatim>\<open>length\<close>, the options \<^verbatim>\<open>{db: 'mock', length: 0}\<close> supply two of them, and
  nothing is seeded: loading \<^verbatim>\<open>target\<close> invokes the setup function of \<^verbatim>\<open>db\<close>, and
  \<^verbatim>\<open>target\<close> receives what that returns. With the options \<^verbatim>\<open>{db: 'mock'}\<close> the same
  call does what is asked.
\<close>

theorem array_like_options_not_seeded:
  "loader [(''target'', component [''db''] 0), (''db'', component [] 2),
           (''length'', component [] 4)] [] =
     Inr (loader_of [(''target'', component [''db''] 0), (''db'', component [] 2),
                     (''length'', component [] 4)]
            [''db'', ''target'', ''length'']) \<and>
   load_call
     (loader_of [(''target'', component [''db''] 0), (''db'', component [] 2),
                 (''length'', component [] 4)]
            [''db'', ''target'', ''length''])
     even_succeeds first_rejected 2 ''target'' [(''db'', Str ''mock''), (''length'', Num 0)]
   = Some (Inr (Promise (Fulfilled (Arr [Num 0, Obj [(''db'', Arr [Num 2, Obj []])]]))),
       \<lparr>loaded = [(''db'', Fulfilled (Arr [Num 2, Obj []])),
                  (''target'', Fulfilled (Arr [Num 0, Obj [(''db'', Arr [Num 2, Obj []])]]))],
        invoked = [(''db'', Obj []), (''target'', Obj [(''db'', Arr [Num 2, Obj []])])]\<rparr>) \<and>
   load_call
     (loader_of [(''target'', component [''db''] 0), (''db'', component [] 2),
                 (''length'', component [] 4)]
            [''db'', ''target'', ''length''])
     even_succeeds first_rejected 2 ''target'' [(''db'', Str ''mock'')]
   = Some (Inr (Promise (Fulfilled (Arr [Num 0, Obj [(''db'', Str ''mock'')]]))),
       \<lparr>loaded = [(''db'', Fulfilled (Str ''mock'')),
                  (''target'', Fulfilled (Arr [Num 0, Obj [(''db'', Str ''mock'')]]))],
        invoked = [(''target'', Obj [(''db'', Str ''mock'')])]\<rparr>)"
  by code_simp

section \<open>Failures propagate\<close>





section \<open>The caller's objects are not written\<close>


lemma dict_at_clone [simp]: "dict_at (h @ [h ! a]) (length h) = dict_at h a"
  by (simp add: dict_at_def)

lemma dict_at_old [simp]: "a < length h \<Longrightarrow> dict_at (h @ cs) a = dict_at h a"
  by (simp add: dict_at_def nth_append)

lemma dict_at_update_other [simp]: "a \<noteq> b \<Longrightarrow> dict_at (h[b := c]) a = dict_at h a"
  by (simp add: dict_at_def)

lemma take_update_beyond [simp]: "n \<le> b \<Longrightarrow> take n (h[b := c]) = take n h"
  by (simp add: take_update_cancel)

lemma loader_in_frame:
  assumes "loader_in h a virt = (h', res)"
  shows "take (length h) h' = h"
  using assms
  by (auto simp: loader_in_def clone_js_def alloc_def Let_def split: if_splits sum.splits)

lemma loader_in_result:
  assumes "loader_in h a virt = (h', res)"
  shows "case res of
           Inl e \<Rightarrow> loader (dict_at h a) virt = Inl e
         | Inr cl \<Rightarrow> dir_ref cl = length h \<and> length h' = Suc (length h) \<and>
                    loader (dict_at h a) virt = Inr (state_of h' cl)"
  using assms
  by (auto simp: loader_in_def loader_def clone_js_def alloc_def Let_def state_of_def dict_at_def
      split: if_splits sum.splits)

lemma load_call_in_frame:
  assumes "load_call_in cl env race n target opts h = Some (h', r, calls)"
  shows "take (length h) h' = h"
  using assms
  by (auto simp: load_call_in_def clone_js_def alloc_def Let_def
      split: sum.splits option.splits)

lemma load_call_in_result:
  assumes "load_call_in cl env race n target opts h = Some (h', r, calls)"
    and "dir_ref cl < length h"
  shows "\<exists>s. load_call (state_of h cl) env race n target (dict_at h opts) = Some (r, s)
           \<and> invoked s = calls"
  using assms
  by (auto simp: load_call_in_def load_call_def clone_js_def alloc_def Let_def state_of_def
      table_at_def nth_append dict_at_def split: sum.splits option.splits)

text \<open>
  C9. Construction leaves every object of the caller's store as it was: the directory
  is cloned, the component \<^verbatim>\<open>graphviz\<close> is added to the clone, a new object that the
  closure refers to, and the closure denotes the loader state that the construction on
  values returns. A load call leaves every object of the store it starts in as it was,
  the caller's options and the closure's directory among them: it clones the options
  and seeds and fills a new table. It returns what the call on values returns.
\<close>

theorem caller_objects_unchanged:
  "(loader_in h a virt = (h', res) \<longrightarrow>
      take (length h) h' = h \<and>
      (case res of
         Inl e \<Rightarrow> loader (dict_at h a) virt = Inl e
       | Inr cl \<Rightarrow> dir_ref cl = length h \<and> length h' = Suc (length h) \<and>
                  loader (dict_at h a) virt = Inr (state_of h' cl))) \<and>
   (load_call_in cl env race n target opts k = Some (k', r, calls) \<and> dir_ref cl < length k \<longrightarrow>
      take (length k) k' = k \<and> state_of k' cl = state_of k cl \<and>
      (\<exists>s. load_call (state_of k cl) env race n target (dict_at k opts) = Some (r, s)
           \<and> invoked s = calls))"
proof (intro conjI impI)
  assume a: "loader_in h a virt = (h', res)"
  then show "take (length h) h' = h" by (rule loader_in_frame)
  from a show "case res of
         Inl e \<Rightarrow> loader (dict_at h a) virt = Inl e
       | Inr cl \<Rightarrow> dir_ref cl = length h \<and> length h' = Suc (length h) \<and>
                  loader (dict_at h a) virt = Inr (state_of h' cl)"
    by (rule loader_in_result)
next
  assume b: "load_call_in cl env race n target opts k = Some (k', r, calls) \<and> dir_ref cl < length k"
  then have fr: "take (length k) k' = k" by (auto dest: load_call_in_frame)
  then show "take (length k) k' = k" .
  from b have "k' ! dir_ref cl = take (length k) k' ! dir_ref cl" by simp
  with fr show "state_of k' cl = state_of k cl" by (simp add: state_of_def dict_at_def)
  from b show "\<exists>s. load_call (state_of k cl) env race n target (dict_at k opts) = Some (r, s)
           \<and> invoked s = calls"
    by (auto dest: load_call_in_result)
qed


theorem caller_objects_unchanged_witness:
  "loader_in caller_store 0 []
     = (caller_store @ [Dict (with_db @ [graphviz_entry])],
        Inr \<lparr>dir_ref = 2, closure_virtual = [], closure_sorted = [''db'', ''target'']\<rparr>) \<and>
   take (length caller_store) (caller_store @ [Dict (with_db @ [graphviz_entry])]) = caller_store \<and>
   load_call_in \<lparr>dir_ref = 2, closure_virtual = [], closure_sorted = [''db'', ''target'']\<rparr>
       even_succeeds first_rejected 2 ''target'' 1
       (caller_store @ [Dict (with_db @ [graphviz_entry])])
     = Some (caller_store @ [Dict (with_db @ [graphviz_entry])]
               @ [Dict [(''db'', Str ''mock'')],
                  Table [(''db'', Fulfilled (Str ''mock'')),
                         (''target'', Fulfilled (Arr [Num 0, Obj [(''db'', Str ''mock'')]]))]],
             Inr (Promise (Fulfilled (Arr [Num 0, Obj [(''db'', Str ''mock'')]]))),
             [(''target'', Obj [(''db'', Str ''mock'')])]) \<and>
   take (length (caller_store @ [Dict (with_db @ [graphviz_entry])]))
     (caller_store @ [Dict (with_db @ [graphviz_entry])]
        @ [Dict [(''db'', Str ''mock'')],
           Table [(''db'', Fulfilled (Str ''mock'')),
                  (''target'', Fulfilled (Arr [Num 0, Obj [(''db'', Str ''mock'')]]))]])
     = caller_store @ [Dict (with_db @ [graphviz_entry])]"
proof -
  let ?h1 = "caller_store @ [Dict (with_db @ [graphviz_entry])]"
  let ?cl = "\<lparr>dir_ref = 2, closure_virtual = [], closure_sorted = [''db'', ''target'']\<rparr>"
  let ?h2 = "?h1 @ [Dict [(''db'', Str ''mock'')],
                  Table [(''db'', Fulfilled (Str ''mock'')),
                         (''target'', Fulfilled (Arr [Num 0, Obj [(''db'', Str ''mock'')]]))]]"
  let ?r = "Inr (Promise (Fulfilled (Arr [Num 0, Obj [(''db'', Str ''mock'')]])))"
  let ?calls = "[(''target'', Obj [(''db'', Str ''mock'')])]"
  have 1: "loader_in caller_store 0 [] = (?h1, Inr ?cl)" by code_simp
  have 2: "load_call_in ?cl even_succeeds first_rejected 2 ''target'' 1 ?h1
      = Some (?h2, ?r, ?calls)"
    by code_simp
  have 3: "dir_ref ?cl < length ?h1" by (simp add: caller_store_def)
  from caller_objects_unchanged
    [of caller_store 0 "[]" ?h1 "Inr ?cl" ?cl even_succeeds first_rejected 2 "''target''" 1
        ?h1 ?h2 ?r ?calls] 1 2 3
  have "take (length caller_store) ?h1 = caller_store" and "take (length ?h1) ?h2 = ?h1"
    by blast+
  with 1 2 show ?thesis by simp
qed

section \<open>Array-like objects and promises as options\<close>

text \<open>
  What the iteration by indices does to a directory and to options whose \<^verbatim>\<open>length\<close>
  is a non-negative integer. Of the directory \<^verbatim>\<open>{length: 0, graphviz: {setup: f}}\<close>
  no entry is validated and construction ends at the check of the reserved name; of
  \<^verbatim>\<open>{length: 0, a: 3}\<close> none is validated either and construction succeeds. With the
  options \<^verbatim>\<open>{config: 7, length: 0}\<close> the binding of the virtual component exists and
  is not seeded, so the call throws on the definition that \<^verbatim>\<open>config\<close> does not have.
\<close>

lemma array_like_directory:
  "loader [(''length'', Num 0), (''graphviz'', Obj [(''setup'', Fun (UserFun 0))])] []
     = Inl ReservedName \<and>
   loader [(''length'', Num 0), (''a'', Num 3)] []
     = Inr \<lparr>directory = [(''length'', Num 0), (''a'', Num 3), graphviz_entry],
            virtualComponents = [], topoSorted = []\<rparr>"
  by code_simp

text \<open>
  The directory \<^verbatim>\<open>{length: 0, a: {requires: ['a'], setup: f}}\<close> is constructed
  although \<^verbatim>\<open>a\<close> requires itself: no node is handed to the sorter. Loading \<^verbatim>\<open>a\<close>
  then recurses without end, whatever the bound.
\<close>

lemma array_like_directory_cycle:
  "loader [(''length'', Num 0), (''a'', component [''a''] 0)] []
     = Inr \<lparr>directory = [(''length'', Num 0), (''a'', component [''a''] 0), graphviz_entry],
            virtualComponents = [], topoSorted = []\<rparr> \<and>
   load_call
     \<lparr>directory = [(''length'', Num 0), (''a'', component [''a''] 0), graphviz_entry],
      virtualComponents = [], topoSorted = []\<rparr> env race n ''a'' [] = None"
proof -
  let ?L = "\<lparr>directory = [(''length'', Num 0), (''a'', component [''a''] 0), graphviz_entry],
      virtualComponents = [], topoSorted = []\<rparr>"
  have 1: "loader [(''length'', Num 0), (''a'', component [''a''] 0)] [] = Inr ?L"
    by code_simp
  have "load ?L env race n \<lparr>loaded = [], invoked = []\<rparr> ''a'' = None"
  proof (induction n)
    case 0
    then show ?case by simp
  next
    case (Suc n)
    have "loaded_at [] ''a'' = None"
      by (simp add: loaded_at_def inherited_def prototype_methods_def)
    moreover have "required (member (directory ?L) ''a'') = Inr [''a'']"
      by (simp add: required_def member_def component_def)
    ultimately show ?case using Suc by simp
  qed
  moreover have "seed env [] (forEach_js []) = []"
    by (simp add: forEach_js_def array_like_def member_def is_length_def)
  ultimately have "load_call ?L env race n ''a'' [] = None"
    by (simp add: load_call_def)
  with 1 show ?thesis by simp
qed

lemma array_like_options:
  "load_call
     \<lparr>directory = [(''app'', component [''config''] 0), graphviz_entry],
      virtualComponents = [''config''], topoSorted = [''config'', ''app'']\<rparr>
     even_succeeds first_rejected 3 ''app'' [(''config'', Num 7), (''length'', Num 0)]
   = Some (Inl TypeError, \<lparr>loaded = [], invoked = []\<rparr>)"
  by code_simp

text \<open>
  An option that is a promise is followed: the dependent receives what the promise is
  fulfilled with, and is rejected when the promise is.
\<close>

lemma promise_as_option:
  "load_call (loader_of with_db [''db'', ''target'']) even_succeeds first_rejected 2 ''target''
     [(''db'', Obj [(''then'', Fun (UserFun 8))])]
   = Some (Inr (Promise (Fulfilled
        (Arr [Num 0, Obj [(''db'', Arr [Num 8, Arr [Obj [(''then'', Fun (UserFun 8))]]])]]))),
       \<lparr>loaded = [(''db'', Fulfilled (Arr [Num 8, Arr [Obj [(''then'', Fun (UserFun 8))]]])),
                  (''target'', Fulfilled
                     (Arr [Num 0, Obj [(''db'', Arr [Num 8, Arr [Obj [(''then'', Fun (UserFun 8))]]])]]))],
        invoked = [(''target'', Obj [(''db'', Arr [Num 8, Arr [Obj [(''then'', Fun (UserFun 8))]]])])]\<rparr>) \<and>
   load_call (loader_of with_db [''db'', ''target'']) even_succeeds first_rejected 2 ''target''
     [(''db'', Obj [(''then'', Fun (UserFun 9))])]
   = Some (Inr (Promise (Rejected (OptionFailure (Num 9)))),
       \<lparr>loaded = [(''db'', Rejected (OptionFailure (Num 9))),
                  (''target'', Rejected (OptionFailure (Num 9)))],
        invoked = []\<rparr>)"
  by code_simp

end
